theory Spec2Isabelle
  imports Main "HOL-Library.Sublist" "HOL-Library.AList"
begin

section \<open>The page: elements, class lists, listeners\<close>

text \<open>
  The widget of \<^verbatim>\<open>src/assets/autocomplete.js\<close> keeps its whole state in the DOM
  and in the fields of one \<^verbatim>\<open>Autocomplete\<close> object. Elements are shared, mutable
  objects compared by identity (\<^verbatim>\<open>===\<close>), so an element is a \<open>node\<close> (its identity)
  and its properties live in a store \<open>doc\<close> from nodes to \<open>element\<close> records. A field
  that holds an element, \<^verbatim>\<open>null\<close> or \<^verbatim>\<open>undefined\<close> is an \<open>elemref\<close>.
\<close>

type_synonym node = nat

datatype elemref = JNull | JUndefined | Ref node

fun truthy :: "elemref \<Rightarrow> bool" where
  "truthy (Ref n) = True"
| "truthy JNull = False"
| "truthy JUndefined = False"

record element =
  elem_id :: string
  classList :: "string set"
  elem_value :: string
  innerText :: string
  children :: "node list"

definition blank :: element where
  "blank = \<lparr>elem_id = [], classList = {}, elem_value = [], innerText = [], children = []\<rparr>"

text \<open>A host callback (\<^verbatim>\<open>onInit\<close>, \<^verbatim>\<open>onDestroy\<close>) is opaque: calling it is recorded.\<close>

type_synonym callback = nat

text \<open>
  A click listener installed on the document by \<^verbatim>\<open>clickOutside\<close> is the closure
  \<^verbatim>\<open>fn\<close>; it is kept as its identity and the \<^verbatim>\<open>elements\<close> array it captured (its
  callback is always \<^verbatim>\<open>this.hideItems\<close>).
\<close>

record page =
  doc :: "node \<Rightarrow> element"
  nextNode :: node
  docClickListeners :: "(nat \<times> node list) list"
  nextListener :: nat
  inputKeydownListener :: bool
  inputInputListener :: bool
  console :: "string list"
  calls :: "callback list"

record options =
  opt_valueMatchItem :: bool
  opt_items :: "string list"
  opt_onInit :: "callback option"
  opt_onDestroy :: "callback option"

record classNames =
  cn_init :: string
  cn_input :: string
  cn_wrapper :: string
  cn_itemsWrapper :: string
  cn_itemsWrapperVisible :: string
  cn_item :: string
  cn_itemVisible :: string
  cn_itemActive :: string

definition DEFAULT_OPTIONS :: options where
  "DEFAULT_OPTIONS = \<lparr>opt_valueMatchItem = False, opt_items = [], opt_onInit = None,
     opt_onDestroy = None\<rparr>"

definition DEFAULT_CLASS_NAMES :: classNames where
  "DEFAULT_CLASS_NAMES = \<lparr>cn_init = ''is-init-autocomplete'', cn_input = ''autocomplete-input'',
     cn_wrapper = ''autocomplete-wrapper'', cn_itemsWrapper = ''autocomplete-items-wrapper'',
     cn_itemsWrapperVisible = ''is-visible'', cn_item = ''autocomplete-item'',
     cn_itemVisible = ''is-visible'', cn_itemActive = ''is-active''\<rparr>"

text \<open>
  The \<^verbatim>\<open>Autocomplete\<close> object: \<^verbatim>\<open>this.elements\<close> (\<open>el_\<close>), \<^verbatim>\<open>this.options\<close>,
  \<^verbatim>\<open>this.classNames\<close>, \<^verbatim>\<open>this.temp\<close>, \<^verbatim>\<open>this.cleanup\<close>, on top of the page it lives in.
\<close>

record widget = page +
  el_input :: node
  el_wrapper :: elemref
  el_itemsWrapper :: elemref
  el_items :: "node list option"
  el_activeItem :: elemref
  options :: options
  classNames :: classNames
  hasItemsVisible :: bool
  cleanup_clickOutside :: "nat option"

text \<open>
  A method either returns or throws a \<^verbatim>\<open>TypeError\<close> (a property read on \<^verbatim>\<open>null\<close> or
  \<^verbatim>\<open>undefined\<close>); in both cases the writes made so far stay. \<open>Beyond\<close> is the limit of
  the model and no outcome of the code: the call hands a string to the HTML parser or to
  the selector engine that lies outside the plain strings the model reads (see
  \<open>generateItems\<close>), or the selector finds an element other than the one just made. The
  model then says nothing about what the code does; the widget it carries is the state in
  which the model stopped.
\<close>

datatype outcome = Normal widget | Threw widget | Beyond widget

fun state_of :: "outcome \<Rightarrow> widget" where
  "state_of (Normal w) = w"
| "state_of (Threw w) = w"
| "state_of (Beyond w) = w"

fun answered :: "outcome \<Rightarrow> bool" where
  "answered (Normal w) = True"
| "answered (Threw w) = True"
| "answered (Beyond w) = False"

fun andThen :: "outcome \<Rightarrow> (widget \<Rightarrow> outcome) \<Rightarrow> outcome" where
  "andThen (Normal w) f = f w"
| "andThen (Threw w) f = Threw w"
| "andThen (Beyond w) f = Beyond w"

subsection \<open>DOM primitives\<close>

definition classList_contains :: "node \<Rightarrow> string \<Rightarrow> widget \<Rightarrow> bool" where
  "classList_contains n c w = (c \<in> classList (doc w n))"

definition classList_add :: "node \<Rightarrow> string \<Rightarrow> widget \<Rightarrow> widget" where
  "classList_add n c w =
     w\<lparr>doc := (doc w)(n := (doc w n)\<lparr>classList := insert c (classList (doc w n))\<rparr>)\<rparr>"

definition classList_remove :: "node \<Rightarrow> string \<Rightarrow> widget \<Rightarrow> widget" where
  "classList_remove n c w =
     w\<lparr>doc := (doc w)(n := (doc w n)\<lparr>classList := classList (doc w n) - {c}\<rparr>)\<rparr>"

text \<open>
  \<^verbatim>\<open>input.value = v\<close>. The input is a one-line text field (\<^verbatim>\<open><input type="text">\<close>), whose
  value never holds a line break: the setter drops every line feed and carriage return, and
  so does the page when the user types or pastes.
\<close>

definition stripLineBreaks :: "string \<Rightarrow> string" where
  "stripLineBreaks s = filter (\<lambda>c. c \<noteq> CHR 0x0A \<and> c \<noteq> CHR 0x0D) s"

definition set_value :: "node \<Rightarrow> string \<Rightarrow> widget \<Rightarrow> widget" where
  "set_value n v w = w\<lparr>doc := (doc w)(n := (doc w n)\<lparr>elem_value := stripLineBreaks v\<rparr>)\<rparr>"

text \<open>
  \<^verbatim>\<open>parent.insertAdjacentHTML('beforeend', `<div class="c1 c2">text</div>`)\<close> once the
  markup is parsed: a new element with the class tokens \<open>cs\<close> and the displayed text \<open>txt\<close>
  becomes the last child of \<open>parent\<close>. What the parser makes of the class names and of the
  item string is settled by the caller (\<open>classToken\<close>, \<open>displayedText\<close> below).
\<close>

definition appendDiv :: "node \<Rightarrow> string set \<Rightarrow> string \<Rightarrow> widget \<Rightarrow> widget" where
  "appendDiv parent cs txt w =
     (let n = nextNode w;
          d = (doc w)(n := blank\<lparr>classList := cs, innerText := txt\<rparr>)
      in w\<lparr>doc := d(parent := (d parent)\<lparr>children := children (d parent) @ [n]\<rparr>),
            nextNode := Suc n\<rparr>)"

text \<open>
  \<^verbatim>\<open>node.remove()\<close>, and the removal that \<^verbatim>\<open>appendChild\<close> and \<^verbatim>\<open>replaceWith\<close> begin with:
  the node leaves the child list of its parent (a node has one parent at most).
\<close>

definition removeNode :: "node \<Rightarrow> widget \<Rightarrow> widget" where
  "removeNode n w =
     w\<lparr>doc := (\<lambda>m. (doc w m)\<lparr>children := removeAll n (children (doc w m))\<rparr>)\<rparr>"

text \<open>\<^verbatim>\<open>parent.appendChild(n)\<close>: \<open>n\<close> leaves its parent and becomes the last child of \<open>parent\<close>.\<close>

definition appendChild :: "node \<Rightarrow> node \<Rightarrow> widget \<Rightarrow> widget" where
  "appendChild parent n w =
     (let w = removeNode n w
      in w\<lparr>doc := (doc w)(parent := (doc w parent)\<lparr>children := children (doc w parent) @ [n]\<rparr>)\<rparr>)"

text \<open>
  The descendants of a node in document order, to a depth of \<open>k\<close>. Every element the page
  has made so far is below \<open>nextNode\<close>, so no tree is deeper than that.
\<close>

fun descendants :: "nat \<Rightarrow> (node \<Rightarrow> element) \<Rightarrow> node \<Rightarrow> node list" where
  "descendants 0 d n = []"
| "descendants (Suc k) d n = concat (map (\<lambda>c. c # descendants k d c) (children (d n)))"

text \<open>
  \<^verbatim>\<open>root.querySelector(`.${c}`)\<close>: the first descendant of \<open>root\<close> in document order that
  carries the class \<open>c\<close>, \<^verbatim>\<open>null\<close> when there is none. Class names are compared as they
  are written (the document is not in quirks mode).
\<close>

definition querySelector :: "node \<Rightarrow> string \<Rightarrow> widget \<Rightarrow> node option" where
  "querySelector root c w =
     find (\<lambda>n. c \<in> classList (doc w n)) (descendants (nextNode w) (doc w) root)"

text \<open>
  \<^verbatim>\<open>root.querySelectorAll(`.${c}`)\<close> on the items container, whose descendants are
  its children (the item elements hold text only), in document order.
\<close>

definition querySelectorAll :: "node \<Rightarrow> string \<Rightarrow> widget \<Rightarrow> node list" where
  "querySelectorAll root c w = filter (\<lambda>n. c \<in> classList (doc w n)) (children (doc w root))"

subsection \<open>Strings\<close>

text \<open>\<^verbatim>\<open>String.prototype.toLowerCase\<close> on the ASCII letters; other characters are kept.\<close>

definition lower_char :: "char \<Rightarrow> char" where
  "lower_char c =
     (case map_of (zip ''ABCDEFGHIJKLMNOPQRSTUVWXYZ'' ''abcdefghijklmnopqrstuvwxyz'') c of
        None \<Rightarrow> c | Some d \<Rightarrow> d)"

definition toLowerCase :: "string \<Rightarrow> string" where
  "toLowerCase s = map lower_char s"

text \<open>
  A class name the model follows through the markup, the selectors and the class lists: a
  letter followed by letters, digits, hyphens and underscores. Such a name is one token of
  a \<^verbatim>\<open>class\<close> attribute and \<^verbatim>\<open>.name\<close> selects the elements that carry it.
\<close>

definition letter :: "char \<Rightarrow> bool" where
  "letter c =
     (let n = (of_char c :: nat) in (65 \<le> n \<and> n \<le> 90) \<or> (97 \<le> n \<and> n \<le> 122))"

definition digitChar :: "char \<Rightarrow> bool" where
  "digitChar c = (let n = (of_char c :: nat) in 48 \<le> n \<and> n \<le> 57)"

definition classToken :: "string \<Rightarrow> bool" where
  "classToken name =
     (case name of
        [] \<Rightarrow> False
      | c # cs \<Rightarrow> letter c
          \<and> list_all (\<lambda>x. letter x \<or> digitChar x \<or> x = CHR ''-'' \<or> x = CHR ''_'') cs)"

text \<open>
  The text an element shows (\<^verbatim>\<open>innerText\<close>) when an item string is parsed as its content.
  The model reads printable ASCII text. \<^verbatim>\<open>&amp;\<close>, \<^verbatim>\<open>&lt;\<close>, \<^verbatim>\<open>&gt;\<close> and \<^verbatim>\<open>&quot;\<close> are
  the character references it knows; an ampersand before anything but a letter, a digit or
  \<^verbatim>\<open>#\<close> stands for itself, and so does \<^verbatim>\<open><\<close> before anything that cannot begin a tag, a
  comment or a declaration. Every other string is outside the model (\<open>None\<close>): it holds
  markup, another character reference, or a character that is not printable ASCII. The text
  must also be what a rendered element shows of it: no blank at either end and no two
  blanks in a row, which the layout would drop.
\<close>

definition printable :: "char \<Rightarrow> bool" where
  "printable c = (32 \<le> (of_char c :: nat) \<and> (of_char c :: nat) \<le> 126)"

definition charRef :: "string \<Rightarrow> (char \<times> string) option" where
  "charRef s =
     (if prefix ''amp;'' s then Some (CHR ''&'', drop 4 s)
      else if prefix ''lt;'' s then Some (CHR ''<'', drop 3 s)
      else if prefix ''gt;'' s then Some (CHR ''>'', drop 3 s)
      else if prefix ''quot;'' s then Some (CHR 0x22, drop 5 s)
      else None)"

function decodeText :: "string \<Rightarrow> string option" where
  "decodeText [] = Some []"
| "decodeText (c # s) =
     (if c = CHR ''&'' \<and> s \<noteq> [] \<and> (letter (hd s) \<or> digitChar (hd s) \<or> hd s = CHR ''#'') then
        (case charRef s of
           None \<Rightarrow> None
         | Some (x, rest) \<Rightarrow> map_option ((#) x) (decodeText rest))
      else if c = CHR ''<'' \<and> s \<noteq> []
              \<and> (letter (hd s) \<or> hd s = CHR ''/'' \<or> hd s = CHR ''!'' \<or> hd s = CHR ''?'') then None
      else if printable c then map_option ((#) c) (decodeText s)
      else None)"
  by pat_completeness auto
termination
  by (relation "measure length") (auto simp: charRef_def split: if_splits)

definition tidy :: "string \<Rightarrow> bool" where
  "tidy t = (t = [] \<or> (hd t \<noteq> CHR '' '' \<and> last t \<noteq> CHR '' '' \<and> \<not> sublist ''  '' t))"

definition displayedText :: "string \<Rightarrow> string option" where
  "displayedText s =
     (case decodeText s of None \<Rightarrow> None | Some t \<Rightarrow> if tidy t then Some t else None)"

text \<open>\<^verbatim>\<open>s.indexOf(t)\<close>: the least position at which \<open>t\<close> occurs in \<open>s\<close>, or \<open>-1\<close>.\<close>

fun indexOf :: "string \<Rightarrow> string \<Rightarrow> int" where
  "indexOf [] t = (if t = [] then 0 else - 1)"
| "indexOf (c # s) t =
     (if prefix t (c # s) then 0
      else (let r = indexOf s t in if r = - 1 then - 1 else r + 1))"

text \<open>\<^verbatim>\<open>items.findIndex((item) => item === x)\<close>: the first position of \<open>x\<close>, or \<open>-1\<close>.\<close>

fun findIndex :: "node list \<Rightarrow> node \<Rightarrow> int" where
  "findIndex [] x = - 1"
| "findIndex (y # ys) x =
     (if y = x then 0 else (let r = findIndex ys x in if r = - 1 then - 1 else r + 1))"

text \<open>\<^verbatim>\<open>items[i]\<close>: \<^verbatim>\<open>undefined\<close> outside the array.\<close>

definition at_index :: "node list \<Rightarrow> int \<Rightarrow> elemref" where
  "at_index xs i = (if 0 \<le> i \<and> i < int (length xs) then Ref (xs ! nat i) else JUndefined)"

section \<open>The widget's methods\<close>

definition isInit :: "widget \<Rightarrow> bool" where
  "isInit w = classList_contains (el_input w) (cn_init (classNames w)) w"

definition isShownWithItems :: "widget \<Rightarrow> bool option" where
  "isShownWithItems w =
     (case el_itemsWrapper w of
        Ref iw \<Rightarrow>
          Some (classList_contains iw (cn_itemsWrapperVisible (classNames w)) w
                \<and> hasItemsVisible w)
      | _ \<Rightarrow> None)"

definition showItems :: "widget \<Rightarrow> outcome" where
  "showItems w =
     (case el_itemsWrapper w of
        Ref iw \<Rightarrow> Normal (classList_add iw (cn_itemsWrapperVisible (classNames w)) w)
      | _ \<Rightarrow> Threw w)"

definition clearActiveItemStyles :: "widget \<Rightarrow> outcome" where
  "clearActiveItemStyles w =
     (case el_items w of
        None \<Rightarrow> Threw w
      | Some its \<Rightarrow>
          Normal (fold (\<lambda>item w. classList_remove item (cn_itemActive (classNames w)) w) its w))"

definition hideItems :: "widget \<Rightarrow> outcome" where
  "hideItems w =
     (case el_itemsWrapper w of
        Ref iw \<Rightarrow>
          andThen (clearActiveItemStyles
                     (classList_remove iw (cn_itemsWrapperVisible (classNames w)) w))
            (\<lambda>w. let w = w\<lparr>el_activeItem := JNull\<rparr> in
               if opt_valueMatchItem (options w) then
                 (case el_items w of
                    None \<Rightarrow> Threw w
                  | Some its \<Rightarrow>
                      (let inputValueLowerCase = toLowerCase (elem_value (doc w (el_input w)));
                           hasMatching =
                             list_ex (\<lambda>item. toLowerCase (innerText (doc w item))
                                              = inputValueLowerCase) its
                       in Normal (if \<not> hasMatching then set_value (el_input w) [] w else w)))
               else Normal w)
      | _ \<Rightarrow> Threw w)"

text \<open>The loop of \<^verbatim>\<open>handleInput\<close> over \<^verbatim>\<open>this.elements.items\<close>.\<close>

definition filterItem :: "string \<Rightarrow> node \<Rightarrow> widget \<Rightarrow> widget" where
  "filterItem inputValueLowerCase item w =
     (if indexOf (toLowerCase (innerText (doc w item))) inputValueLowerCase > - 1
      then (classList_add item (cn_itemVisible (classNames w)) w)\<lparr>hasItemsVisible := True\<rparr>
      else classList_remove item (cn_itemVisible (classNames w)) w)"

definition handleInput :: "widget \<Rightarrow> outcome" where
  "handleInput w =
     (let inputValueLowerCase = toLowerCase (elem_value (doc w (el_input w))) in
      andThen (if inputValueLowerCase = [] then hideItems w else showItems w)
        (\<lambda>w. let w = w\<lparr>hasItemsVisible := False\<rparr> in
           case el_items w of
             None \<Rightarrow> Threw w
           | Some its \<Rightarrow> Normal (fold (filterItem inputValueLowerCase) its w)))"

definition setInput :: "string \<Rightarrow> widget \<Rightarrow> outcome" where
  "setInput v w = andThen (handleInput (set_value (el_input w) v w)) hideItems"

text \<open>
  \<^verbatim>\<open>generateItems\<close>. The markup of the container is appended to the wrapper and the
  container is then looked up by \<^verbatim>\<open>querySelector\<close>; the markup of every item is appended to
  it, and \<^verbatim>\<open>this.elements.items\<close> is what \<^verbatim>\<open>querySelectorAll\<close> finds in it under the item
  class. Every item element gets the click listener \<^verbatim>\<open>handleItemClick\<close>.

  The model follows the code where the three class names are such tokens, the item strings
  have a displayed text, and the element found is the container just made. An older element
  of the wrapper that carries the container class (the input, say) would be found in its
  place and take the items; there, as for the other strings, the model stops.
\<close>

definition generateItems :: "string list \<Rightarrow> widget \<Rightarrow> outcome" where
  "generateItems items w =
     (case el_wrapper w of
        Ref wr \<Rightarrow>
          if \<not> classToken (cn_itemsWrapper (classNames w)) then Beyond w
          else
            (let made = nextNode w;
                 w1 = appendDiv wr {cn_itemsWrapper (classNames w)} [] w
             in case querySelector wr (cn_itemsWrapper (classNames w1)) w1 of
                  None \<Rightarrow> Threw (w1\<lparr>el_itemsWrapper := JNull\<rparr>)
                | Some iw \<Rightarrow>
                    if iw \<noteq> made \<or> \<not> classToken (cn_item (classNames w))
                       \<or> \<not> classToken (cn_itemVisible (classNames w))
                    then Beyond w
                    else
                      (case those (map displayedText items) of
                         None \<Rightarrow> Beyond w
                       | Some texts \<Rightarrow>
                           (let w2 = w1\<lparr>el_itemsWrapper := Ref iw\<rparr>;
                                w3 = fold (\<lambda>txt w. appendDiv iw
                                             {cn_item (classNames w), cn_itemVisible (classNames w)}
                                             txt w)
                                       texts w2
                            in Normal (w3\<lparr>el_items :=
                                 Some (querySelectorAll iw (cn_item (classNames w3)) w3)\<rparr>))))
      | _ \<Rightarrow> Threw w)"

definition setItems :: "string list \<Rightarrow> widget \<Rightarrow> outcome" where
  "setItems items w =
     (let w = w\<lparr>options := (options w)\<lparr>opt_items := items\<rparr>\<rparr>;
          w = (case el_itemsWrapper w of
                 Ref iw \<Rightarrow> (removeNode iw w)\<lparr>el_itemsWrapper := JNull\<rparr>
               | _ \<Rightarrow> w)
      in generateItems (opt_items (options w)) w)"

text \<open>
  \<^verbatim>\<open>handleArrowKey\<close>. The last statement, \<^verbatim>\<open>scrollIntoViewIfNeeded\<close>, only moves
  scroll positions, which are not part of the state.
\<close>

definition handleArrowKey :: "string \<Rightarrow> widget \<Rightarrow> outcome" where
  "handleArrowKey direction w =
     (if direction = [] then Normal w
      else andThen (clearActiveItemStyles w)
        (\<lambda>w. case el_itemsWrapper w of
           Ref iw \<Rightarrow>
             (let items = querySelectorAll iw (cn_itemVisible (classNames w)) w;
                  firstItem = at_index items 0;
                  lastItem = at_index items (int (length items) - 1);
                  w = (if direction = ''ArrowUp'' then
                         (if truthy (el_activeItem w) \<and> el_activeItem w \<noteq> firstItem then
                            (case el_activeItem w of
                               Ref a \<Rightarrow> w\<lparr>el_activeItem := at_index items (findIndex items a - 1)\<rparr>
                             | _ \<Rightarrow> w)
                          else w\<lparr>el_activeItem := lastItem\<rparr>)
                       else if direction = ''ArrowDown'' then
                         (if truthy (el_activeItem w) \<and> el_activeItem w \<noteq> lastItem then
                            (case el_activeItem w of
                               Ref a \<Rightarrow> w\<lparr>el_activeItem := at_index items (findIndex items a + 1)\<rparr>
                             | _ \<Rightarrow> w)
                          else w\<lparr>el_activeItem := firstItem\<rparr>)
                       else w)
              in case el_activeItem w of
                   Ref a \<Rightarrow> Normal (classList_add a (cn_itemActive (classNames w)) w)
                 | _ \<Rightarrow> Threw w)
         | _ \<Rightarrow> Threw w))"

text \<open>\<^verbatim>\<open>handleKeydown\<close>, on \<^verbatim>\<open>event.key\<close> (\<^verbatim>\<open>preventDefault\<close> leaves the state alone).\<close>

definition handleKeydown :: "string \<Rightarrow> widget \<Rightarrow> outcome" where
  "handleKeydown key w =
     (case isShownWithItems w of
        None \<Rightarrow> Threw w
      | Some shown \<Rightarrow>
          if \<not> shown then Normal w
          else if key = ''ArrowUp'' then handleArrowKey ''ArrowUp'' w
          else if key = ''ArrowDown'' then handleArrowKey ''ArrowDown'' w
          else if key = ''Enter'' then
            (case el_activeItem w of
               Ref a \<Rightarrow> setInput (innerText (doc w a)) w
             | _ \<Rightarrow> Normal w)
          else Normal w)"

text \<open>\<^verbatim>\<open>handleItemClick\<close>, on \<^verbatim>\<open>event.currentTarget\<close>, the item clicked.\<close>

definition handleItemClick :: "node \<Rightarrow> widget \<Rightarrow> outcome" where
  "handleItemClick currentTarget w = setInput (innerText (doc w currentTarget)) w"

subsection \<open>Outside clicks\<close>

text \<open>
  A click event is its target followed by the successive \<^verbatim>\<open>parentNode\<close>s up to the
  document: the sequence the \<^verbatim>\<open>do ... while (target)\<close> loop of \<^verbatim>\<open>clickOutside\<close> walks.
  \<open>insideAny\<close> is that loop, true when it leaves through \<^verbatim>\<open>return\<close>.
\<close>

record click =
  target :: node
  ancestors :: "node list"

fun insideAny :: "node list \<Rightarrow> node list \<Rightarrow> bool" where
  "insideAny elements [] = False"
| "insideAny elements (t # up) =
     (if list_ex (\<lambda>element. t = element) elements then True else insideAny elements up)"

definition clickOutside_fn :: "node list \<Rightarrow> click \<Rightarrow> widget \<Rightarrow> outcome" where
  "clickOutside_fn elements event w =
     (if insideAny elements (target event # ancestors event) then Normal w else hideItems w)"

text \<open>
  \<^verbatim>\<open>clickOutside(elements, callback)\<close> installs the listener and returns the closure
  that removes it, kept as the listener's identity.
\<close>

definition clickOutside :: "node list \<Rightarrow> widget \<Rightarrow> widget \<times> nat" where
  "clickOutside elements w =
     (let l = nextListener w
      in (w\<lparr>docClickListeners := docClickListeners w @ [(l, elements)],
             nextListener := Suc l\<rparr>, l))"

definition addEvents :: "widget \<Rightarrow> outcome" where
  "addEvents w =
     (let w = w\<lparr>inputKeydownListener := True, inputInputListener := True\<rparr>;
          captured = [el_input w] @ (case el_itemsWrapper w of Ref iw \<Rightarrow> [iw] | _ \<Rightarrow> []);
          (w, l) = clickOutside captured w
      in Normal (w\<lparr>cleanup_clickOutside := Some l\<rparr>))"

definition removeEvents :: "widget \<Rightarrow> outcome" where
  "removeEvents w =
     (let w = w\<lparr>inputKeydownListener := False, inputInputListener := False\<rparr>
      in case cleanup_clickOutside w of
           None \<Rightarrow> Threw w
         | Some l \<Rightarrow>
             Normal (w\<lparr>docClickListeners := filter (\<lambda>(i, es). i \<noteq> l) (docClickListeners w)\<rparr>))"

subsection \<open>Life cycle\<close>

text \<open>
  \<^verbatim>\<open>generateHTML\<close>: the wrapper is a new element put before the input, and the input
  moves into it. \<^verbatim>\<open>destroyHTML\<close> puts the input back in the wrapper's place. The host's
  tree around the input and the wrapper is not part of the state; the host leaves both
  where the widget put them. The wrapper's class name goes through markup like the others.
\<close>

definition generateHTML :: "widget \<Rightarrow> outcome" where
  "generateHTML w =
     (if \<not> classToken (cn_wrapper (classNames w)) then Beyond w
      else
        (let wr = nextNode w;
             w = w\<lparr>doc := (doc w)(wr := blank\<lparr>classList := {cn_wrapper (classNames w)}\<rparr>),
                    nextNode := Suc wr\<rparr>;
             w = w\<lparr>el_wrapper := Ref wr\<rparr>;
             w = appendChild wr (el_input w) w;
             w = classList_add (el_input w) (cn_input (classNames w)) w
         in generateItems (opt_items (options w)) w))"

definition destroyHTML :: "widget \<Rightarrow> outcome" where
  "destroyHTML w =
     (case el_wrapper w of
        Ref wr \<Rightarrow>
          Normal (classList_remove (el_input w) (cn_input (classNames w))
                    (removeNode (el_input w) w))
      | _ \<Rightarrow> Threw w)"

definition invoke :: "callback option \<Rightarrow> widget \<Rightarrow> widget" where
  "invoke cb w = (case cb of None \<Rightarrow> w | Some f \<Rightarrow> w\<lparr>calls := calls w @ [f]\<rparr>)"

definition init :: "widget \<Rightarrow> outcome" where
  "init w =
     (if isInit w then
        Normal (w\<lparr>console := console w
                   @ [''Autocomplete is already initialized (id): ''
                      @ elem_id (doc w (el_input w))]\<rparr>)
      else
        andThen (generateHTML w) (\<lambda>w.
        andThen (addEvents w) (\<lambda>w.
        andThen (if elem_value (doc w (el_input w)) \<noteq> [] then handleInput w else Normal w) (\<lambda>w.
        Normal (invoke (opt_onInit (options w))
                  (classList_add (el_input w) (cn_init (classNames w)) w))))))"

definition destroy :: "widget \<Rightarrow> outcome" where
  "destroy w =
     (if \<not> isInit w then
        Normal (w\<lparr>console := console w
                   @ [''Autocomplete is not initialized (id): ''
                      @ elem_id (doc w (el_input w))]\<rparr>)
      else
        andThen (destroyHTML w) (\<lambda>w.
        andThen (removeEvents w) (\<lambda>w.
        Normal (invoke (opt_onDestroy (options w))
                  (classList_remove (el_input w) (cn_init (classNames w)) w)))))"

text \<open>
  The constructor, on a page that holds the input element. \<open>opts\<close> and \<open>cns\<close> are the
  results of merging the caller's records into \<open>DEFAULT_OPTIONS\<close> and
  \<open>DEFAULT_CLASS_NAMES\<close>.
\<close>

definition Autocomplete :: "node \<Rightarrow> options \<Rightarrow> classNames \<Rightarrow> page \<Rightarrow> outcome" where
  "Autocomplete inputElement opts cns p =
     init (page.extend p
       \<lparr>el_input = inputElement, el_wrapper = JNull, el_itemsWrapper = JNull, el_items = None,
        el_activeItem = JNull, options = opts, classNames = cns, hasItemsVisible = False,
        cleanup_clickOutside = None\<rparr>)"


subsection \<open>Events and traces\<close>

text \<open>
  What the page delivers to the widget. Typing changes the input's text and fires the
  \<^verbatim>\<open>input\<close> event; a key press fires \<^verbatim>\<open>keydown\<close>; both reach the handlers only while
  \<^verbatim>\<open>addEvents\<close> has them registered. A click first runs the listener of the item hit,
  if the target is an item of the current collection, and then, bubbling up to the
  document, every installed outside-click listener. A listener that throws does not
  stop the ones after it.
\<close>

fun continue :: "outcome \<Rightarrow> (widget \<Rightarrow> outcome) \<Rightarrow> outcome" where
  "continue (Normal w) f = f w"
| "continue (Threw w) f = Threw (state_of (f w))"
| "continue (Beyond w) f = Beyond w"

definition dispatchInput :: "string \<Rightarrow> widget \<Rightarrow> outcome" where
  "dispatchInput s w =
     (let w = set_value (el_input w) s w
      in if inputInputListener w then handleInput w else Normal w)"

definition dispatchKeydown :: "string \<Rightarrow> widget \<Rightarrow> outcome" where
  "dispatchKeydown key w = (if inputKeydownListener w then handleKeydown key w else Normal w)"

definition dispatchClick :: "click \<Rightarrow> widget \<Rightarrow> outcome" where
  "dispatchClick event w =
     fold (\<lambda>(l, elements) r. continue r (clickOutside_fn elements event))
       (docClickListeners w)
       (case el_items w of
          Some its \<Rightarrow> if target event \<in> set its then handleItemClick (target event) w
                      else Normal w
        | None \<Rightarrow> Normal w)"

datatype op =
    Type string
  | Key string
  | Click click
  | ShowItems
  | HideItems
  | SetInput string
  | SetItems "string list"
  | Init
  | Destroy

fun step :: "op \<Rightarrow> widget \<Rightarrow> outcome" where
  "step (Type s) w = dispatchInput s w"
| "step (Key k) w = dispatchKeydown k w"
| "step (Click e) w = dispatchClick e w"
| "step ShowItems w = showItems w"
| "step HideItems w = hideItems w"
| "step (SetInput s) w = setInput s w"
| "step (SetItems items) w = setItems items w"
| "step Init w = init w"
| "step Destroy w = destroy w"

text \<open>A trace of operations; the state survives an operation that throws.\<close>

definition run :: "op list \<Rightarrow> widget \<Rightarrow> widget" where
  "run ops w = fold (\<lambda>x w. state_of (step x w)) ops w"

section \<open>Notions used in the statements and proofs\<close>

definition clearClass :: "string \<Rightarrow> node list \<Rightarrow> (node \<Rightarrow> element) \<Rightarrow> node \<Rightarrow> element" where
  "clearClass c its d =
     (\<lambda>n. if n \<in> set its then (d n)\<lparr>classList := classList (d n) - {c}\<rparr> else d n)"

definition matches :: "string \<Rightarrow> element \<Rightarrow> bool" where
  "matches v e = sublist v (toLowerCase (innerText e))"

definition filtered ::
  "string \<Rightarrow> string \<Rightarrow> node list \<Rightarrow> (node \<Rightarrow> element) \<Rightarrow> node \<Rightarrow> element" where
  "filtered c v its d =
     (\<lambda>n. if n \<in> set its
          then (d n)\<lparr>classList := (if matches v (d n) then insert c (classList (d n))
                                    else classList (d n) - {c})\<rparr>
          else d n)"

text \<open>The state \<^verbatim>\<open>hideItems\<close> leaves, given the items container and the item collection.\<close>

definition hidden :: "node \<Rightarrow> node list \<Rightarrow> widget \<Rightarrow> widget" where
  "hidden iw its w =
     (let d = clearClass (cn_itemActive (classNames w)) its
                ((doc w)(iw := (doc w iw)\<lparr>classList := classList (doc w iw)
                                               - {cn_itemsWrapperVisible (classNames w)}\<rparr>));
          keep = (opt_valueMatchItem (options w) \<longrightarrow>
                    (\<exists>item \<in> set its. toLowerCase (innerText (d item))
                                        = toLowerCase (elem_value (d (el_input w)))))
      in w\<lparr>doc := (if keep then d else d(el_input w := (d (el_input w))\<lparr>elem_value := []\<rparr>)),
           el_activeItem := JNull\<rparr>)"


text \<open>
  The items of the current collection that carry the active-highlight class; class names
  among which the active-highlight class is neither the item class nor the item-visible
  class, the two classes every item element is made with.
\<close>

definition activeItems :: "widget \<Rightarrow> node set" where
  "activeItems w =
     (case el_items w of
        None \<Rightarrow> {}
      | Some its \<Rightarrow> {item \<in> set its. classList_contains item (cn_itemActive (classNames w)) w})"

definition activeClassApart :: "classNames \<Rightarrow> bool" where
  "activeClassApart cns = (cn_itemActive cns \<noteq> cn_item cns \<and> cn_itemActive cns \<noteq> cn_itemVisible cns)"

definition oneActive :: "widget \<Rightarrow> bool" where
  "oneActive w = (\<forall>x \<in> activeItems w. \<forall>y \<in> activeItems w. x = y)"


text \<open>
  What holds of the elements in every such state: the input and the wrapper are elements
  the page has made; once items exist there is a wrapper and a container, neither the
  container nor the input is an item, and the items are elements the page has made that
  show, in order, the displayed texts of \<^verbatim>\<open>this.options.items\<close>.
\<close>

definition sound :: "widget \<Rightarrow> bool" where
  "sound w =
     (el_input w < nextNode w
      \<and> (\<forall>wr. el_wrapper w = Ref wr \<longrightarrow> wr < nextNode w)
      \<and> (case el_items w of
           None \<Rightarrow> True
         | Some its \<Rightarrow>
             (\<exists>wr. el_wrapper w = Ref wr)
             \<and> (\<exists>iw. el_itemsWrapper w = Ref iw \<and> iw \<notin> set its)
             \<and> el_input w \<notin> set its
             \<and> (\<forall>n \<in> set its. n < nextNode w)
             \<and> map (\<lambda>n. Some (innerText (doc w n))) its
                 = map displayedText (opt_items (options w))))"

text \<open>
  Two states with the same elements in the same roles and the same texts: what the
  handlers of keys, clicks and typing keep.
\<close>

definition sameItems :: "widget \<Rightarrow> widget \<Rightarrow> bool" where
  "sameItems w w' =
     (el_input w' = el_input w \<and> el_wrapper w' = el_wrapper w
      \<and> el_itemsWrapper w' = el_itemsWrapper w \<and> el_items w' = el_items w
      \<and> options w' = options w \<and> classNames w' = classNames w \<and> nextNode w' = nextNode w
      \<and> (\<forall>n. innerText (doc w' n) = innerText (doc w n)))"

text \<open>
  \<open>keeps w u\<close>: going from \<open>w\<close> to \<open>u\<close> keeps the class names, keeps the state sound,
  and keeps the active items at one at most when the class names set the active-highlight
  class apart.
\<close>

definition keeps :: "widget \<Rightarrow> widget \<Rightarrow> bool" where
  "keeps w u =
     (classNames u = classNames w
      \<and> (sound w \<longrightarrow> sound u)
      \<and> (sound w \<and> activeClassApart (classNames w) \<and> oneActive w \<longrightarrow> oneActive u))"


subsection \<open>Sample pages and widgets\<close>

text \<open>A page whose only element is the input (node 0, \<^verbatim>\<open>id="search"\<close>, empty).\<close>

definition page0 :: page where
  "page0 = \<lparr>doc = (\<lambda>_. blank)(0 := blank\<lparr>elem_id := ''search''\<rparr>), nextNode = 1,
     docClickListeners = [], nextListener = 0, inputKeydownListener = False,
     inputInputListener = False, console = [], calls = []\<rparr>"

text \<open>
  \<^verbatim>\<open>new Autocomplete(input, {items: ['Apple', 'Banana', 'Cherry']})\<close> on that page:
  wrapper 1, items container 2, items 3, 4 and 5.
\<close>

definition fruit :: widget where
  "fruit = state_of (Autocomplete 0 (DEFAULT_OPTIONS\<lparr>opt_items := [''Apple'', ''Banana'', ''Cherry'']\<rparr>)
                       DEFAULT_CLASS_NAMES page0)"

text \<open>
  The states this widget passes through differ in the input's text \<open>v\<close>, in the classes
  of the items container (\<open>cw\<close>) and of the three items (\<open>c3\<close>, \<open>c4\<close>, \<open>c5\<close>), in the
  active item and in the \<^verbatim>\<open>hasItemsVisible\<close> flag.
\<close>

definition item_el :: "string set \<Rightarrow> string \<Rightarrow> element" where
  "item_el cs txt = blank\<lparr>classList := cs, innerText := txt\<rparr>"

definition fruit_state ::
  "string \<Rightarrow> string set \<Rightarrow> string set \<Rightarrow> string set \<Rightarrow> string set \<Rightarrow> elemref \<Rightarrow> bool
     \<Rightarrow> widget" where
  "fruit_state v cw c3 c4 c5 act has =
     \<lparr>doc = (\<lambda>_. blank)
         (0 := blank\<lparr>elem_id := ''search'', elem_value := v,
                      classList := {''autocomplete-input'', ''is-init-autocomplete''}\<rparr>,
          1 := blank\<lparr>classList := {''autocomplete-wrapper''}, children := [0, 2]\<rparr>,
          2 := blank\<lparr>classList := cw, children := [3, 4, 5]\<rparr>,
          3 := item_el c3 ''Apple'', 4 := item_el c4 ''Banana'', 5 := item_el c5 ''Cherry''),
      nextNode = 6, docClickListeners = [(0, [0, 2])], nextListener = 1,
      inputKeydownListener = True, inputInputListener = True, console = [], calls = [],
      el_input = 0, el_wrapper = Ref 1, el_itemsWrapper = Ref 2, el_items = Some [3, 4, 5],
      el_activeItem = act,
      options = DEFAULT_OPTIONS\<lparr>opt_items := [''Apple'', ''Banana'', ''Cherry'']\<rparr>,
      classNames = DEFAULT_CLASS_NAMES, hasItemsVisible = has, cleanup_clickOutside = Some 0\<rparr>"

text \<open>
  States of the sample widget: after typing \<^verbatim>\<open>a\<close>; after one and two presses of
  ArrowDown; then, the text changed to \<^verbatim>\<open>ap\<close> or \<^verbatim>\<open>e\<close>, which filters the active
  item out.
\<close>

definition typed_a :: widget where
  "typed_a = fruit_state ''a'' {''autocomplete-items-wrapper'', ''is-visible''}
     {''autocomplete-item'', ''is-visible''} {''autocomplete-item'', ''is-visible''}
     {''autocomplete-item''} JNull True"

definition apple_active :: widget where
  "apple_active = fruit_state ''a'' {''autocomplete-items-wrapper'', ''is-visible''}
     {''autocomplete-item'', ''is-visible'', ''is-active''} {''autocomplete-item'', ''is-visible''}
     {''autocomplete-item''} (Ref 3) True"

definition banana_active :: widget where
  "banana_active = fruit_state ''a'' {''autocomplete-items-wrapper'', ''is-visible''}
     {''autocomplete-item'', ''is-visible''} {''autocomplete-item'', ''is-visible'', ''is-active''}
     {''autocomplete-item''} (Ref 4) True"

definition stale_ap :: widget where
  "stale_ap = fruit_state ''ap'' {''autocomplete-items-wrapper'', ''is-visible''}
     {''autocomplete-item'', ''is-visible''} {''autocomplete-item'', ''is-active''}
     {''autocomplete-item''} (Ref 4) True"

definition stale_e :: widget where
  "stale_e = fruit_state ''e'' {''autocomplete-items-wrapper'', ''is-visible''}
     {''autocomplete-item'', ''is-visible''} {''autocomplete-item'', ''is-active''}
     {''autocomplete-item'', ''is-visible''} (Ref 4) True"

text \<open>
  After \<^verbatim>\<open>setItems(['One', 'Two'])\<close> in the state \<open>apple_active\<close>: the new container
  is node 6, the new items are 7 and 8, and the former container and items, removed from
  the wrapper, are still in the store.
\<close>

definition renewed ::
  "string \<Rightarrow> string set \<Rightarrow> string set \<Rightarrow> string set \<Rightarrow> elemref \<Rightarrow> bool \<Rightarrow> widget" where
  "renewed v cw c7 c8 act has =
     (let old = fruit_state v {''autocomplete-items-wrapper'', ''is-visible''}
                  {''autocomplete-item'', ''is-visible'', ''is-active''}
                  {''autocomplete-item'', ''is-visible''} {''autocomplete-item''} act has
      in old\<lparr>doc := (doc old)
                (1 := blank\<lparr>classList := {''autocomplete-wrapper''}, children := [0, 6]\<rparr>,
                 6 := blank\<lparr>classList := cw, children := [7, 8]\<rparr>,
                 7 := item_el c7 ''One'', 8 := item_el c8 ''Two''),
              nextNode := 9, el_itemsWrapper := Ref 6, el_items := Some [7, 8],
              options := DEFAULT_OPTIONS\<lparr>opt_items := [''One'', ''Two'']\<rparr>\<rparr>)"

definition renewed_a :: widget where
  "renewed_a = renewed ''a'' {''autocomplete-items-wrapper''}
     {''autocomplete-item'', ''is-visible''} {''autocomplete-item'', ''is-visible''} (Ref 3) True"

definition renewed_o :: widget where
  "renewed_o = renewed ''o'' {''autocomplete-items-wrapper'', ''is-visible''}
     {''autocomplete-item'', ''is-visible''} {''autocomplete-item'', ''is-visible''} (Ref 3) True"







section \<open>deepMerge: objects on a heap\<close>

text \<open>
  \<open>deepMerge\<close> assigns to the properties of objects that other objects may share, so the
  objects live in cells of a heap and a value of object type is the address of its cell. An
  array is a cell of its own kind; the own enumerable properties of an array are its elements
  under their decimal indices. Numbers are integers, a function is a name without properties
  of its own, and the properties of a cell are listed in the order of their first assignment
  (no statement below depends on that order). The cells have no prototype link: where the
  code would follow one, the model says so and gives no answer.
\<close>

type_synonym addr = nat

datatype val = VUndefined | VNull | VBool bool | VNum int | VStr string | VFun nat | VRef addr

datatype cell = CArr "val list" | CObj "(string \<times> val) list"

type_synonym heap = "cell list"

text \<open>
  A call returns, throws a \<open>TypeError\<close>, or has used up its fuel: the recursion of
  \<open>deepMerge\<close> has no bound of its own, and each call uses one unit. \<open>Unmodelled\<close> is
  the model's own limit: the call has reached the key \<open>__proto__\<close>, where the code reads and
  sets the prototype of the accumulator.
\<close>

datatype 'a res = OutOfFuel | Throw | Unmodelled | Ret 'a

definition digit :: "nat \<Rightarrow> char" where
  "digit d = ''0123456789'' ! d"

function dec :: "nat \<Rightarrow> string" where
  "dec n = (if n < 10 then [digit n] else dec (n div 10) @ [digit (n mod 10)])"
  by pat_completeness auto
termination
  by (relation "measure id") auto

definition indexed :: "'a list \<Rightarrow> (string \<times> 'a) list" where
  "indexed xs = zip (map dec [0..<length xs]) xs"

text \<open>
  The own enumerable properties that \<open>Object.keys\<close> and a property read see: those of the
  cell, the characters of a string, none for the other primitive values; \<open>undefined\<close> and
  \<open>null\<close> have none to ask for.
\<close>

definition ownProperties :: "heap \<Rightarrow> val \<Rightarrow> (string \<times> val) list option" where
  "ownProperties h v =
     (case v of
        VRef a \<Rightarrow> Some (if a < length h
                         then (case h ! a of CObj kvs \<Rightarrow> kvs | CArr xs \<Rightarrow> indexed xs)
                         else [])
      | VStr s \<Rightarrow> Some (indexed (map (\<lambda>c. VStr [c]) s))
      | VUndefined \<Rightarrow> None
      | VNull \<Rightarrow> None
      | _ \<Rightarrow> Some [])"

text \<open>\<open>Object.keys(obj)\<close>; \<open>None\<close> is the \<open>TypeError\<close> on \<open>undefined\<close> and \<open>null\<close>.\<close>

definition keys :: "heap \<Rightarrow> val \<Rightarrow> string list option" where
  "keys h v = map_option (map fst) (ownProperties h v)"

text \<open>
  The value of an own property, \<open>undefined\<close> when there is none, and the write of an own
  property of an object cell (the accumulator is one; an array cell is left as it is).
\<close>

definition getOwn :: "heap \<Rightarrow> val \<Rightarrow> string \<Rightarrow> val" where
  "getOwn h v key =
     (case ownProperties h v of
        None \<Rightarrow> VUndefined
      | Some kvs \<Rightarrow> (case map_of kvs key of None \<Rightarrow> VUndefined | Some x \<Rightarrow> x))"

definition setOwn :: "heap \<Rightarrow> addr \<Rightarrow> string \<Rightarrow> val \<Rightarrow> heap" where
  "setOwn h a key v =
     (case h ! a of CObj kvs \<Rightarrow> h[a := CObj (AList.update key v kvs)] | CArr xs \<Rightarrow> h)"

text \<open>
  \<open>obj[key]\<close>, read, and \<open>prev[key] = v\<close>. \<open>deepMerge\<close> reads \<open>obj\<close> at its own keys and
  reads and assigns the accumulator, which the literal \<open>{}\<close> made. On the accumulator the key
  \<open>__proto__\<close> is the accessor inherited from \<open>Object.prototype\<close>: the read gives the
  prototype and the assignment replaces it, after which other reads go through the new
  prototype. The model has none of this and answers \<open>None\<close> for that key. For every other
  key the read gives the own property, and where there is none the code finds \<open>undefined\<close>
  or a built-in function of \<open>Object.prototype\<close>; \<open>deepMerge\<close> asks of such a value only
  whether it is an array or an object, which neither is, so the model gives \<open>undefined\<close> for
  both. The assignment then makes or updates an own property.
\<close>

definition getProp :: "heap \<Rightarrow> val \<Rightarrow> string \<Rightarrow> val option" where
  "getProp h v key = (if key = ''__proto__'' then None else Some (getOwn h v key))"

definition setProp :: "heap \<Rightarrow> addr \<Rightarrow> string \<Rightarrow> val \<Rightarrow> heap option" where
  "setProp h a key v = (if key = ''__proto__'' then None else Some (setOwn h a key v))"

definition isArray :: "heap \<Rightarrow> val \<Rightarrow> bool" where
  "isArray h v =
     (case v of
        VRef a \<Rightarrow> a < length h \<and> (case h ! a of CArr xs \<Rightarrow> True | CObj kvs \<Rightarrow> False)
      | _ \<Rightarrow> False)"

text \<open>\<open>obj && typeof obj === 'object'\<close>: arrays pass, \<open>null\<close> and functions do not.\<close>

definition isObject :: "val \<Rightarrow> bool" where
  "isObject v = (case v of VRef a \<Rightarrow> True | _ \<Rightarrow> False)"

definition arrayElements :: "heap \<Rightarrow> val \<Rightarrow> val list" where
  "arrayElements h v =
     (case v of
        VRef a \<Rightarrow> (if a < length h then (case h ! a of CArr xs \<Rightarrow> xs | CObj kvs \<Rightarrow> []) else [])
      | _ \<Rightarrow> [])"

text \<open>
  \<open>pVal.concat(...oVal)\<close>: every element of \<open>oVal\<close> is an argument of \<open>concat\<close>, which appends
  the elements of an argument that is an array and the argument itself otherwise. The result
  is a new array.
\<close>

definition spreadable :: "heap \<Rightarrow> val \<Rightarrow> val list" where
  "spreadable h x = (if isArray h x then arrayElements h x else [x])"

definition concat_spread :: "heap \<Rightarrow> val \<Rightarrow> val \<Rightarrow> heap \<times> val" where
  "concat_spread h pVal oVal =
     (h @ [CArr (arrayElements h pVal @ concat (map (spreadable h) (arrayElements h oVal)))],
      VRef (length h))"

text \<open>
  The body of \<open>Object.keys(obj).forEach\<close>, over the keys that are left; \<open>rec\<close> is the
  recursive call of \<open>deepMerge\<close>.
\<close>

fun forEach ::
  "(heap \<Rightarrow> val list \<Rightarrow> (heap \<times> val) res) \<Rightarrow> heap \<Rightarrow> addr \<Rightarrow> val \<Rightarrow> string list \<Rightarrow> heap res" where
  "forEach rec h prev obj [] = Ret h"
| "forEach rec h prev obj (key # rest) =
     (case getProp h (VRef prev) key of
        None \<Rightarrow> Unmodelled
      | Some pVal \<Rightarrow>
     (case getProp h obj key of
        None \<Rightarrow> Unmodelled
      | Some oVal \<Rightarrow>
          if isArray h pVal \<and> isArray h oVal then
            (case concat_spread h pVal oVal of
               (h1, arr) \<Rightarrow>
                 (case setProp h1 prev key arr of
                    None \<Rightarrow> Unmodelled
                  | Some h2 \<Rightarrow> forEach rec h2 prev obj rest))
          else if isObject pVal \<and> isObject oVal then
            (case rec h [pVal, oVal] of
               Ret (h1, r) \<Rightarrow>
                 (case setProp h1 prev key r of
                    None \<Rightarrow> Unmodelled
                  | Some h2 \<Rightarrow> forEach rec h2 prev obj rest)
             | OutOfFuel \<Rightarrow> OutOfFuel
             | Throw \<Rightarrow> Throw
             | Unmodelled \<Rightarrow> Unmodelled)
          else
            (case setProp h prev key oVal of
               None \<Rightarrow> Unmodelled
             | Some h2 \<Rightarrow> forEach rec h2 prev obj rest)))"

text \<open>\<open>objects.reduce((prev, obj) => ..., {})\<close>, over the objects that are left.\<close>

fun reduce ::
  "(heap \<Rightarrow> val list \<Rightarrow> (heap \<times> val) res) \<Rightarrow> heap \<Rightarrow> addr \<Rightarrow> val list \<Rightarrow> (heap \<times> val) res" where
  "reduce rec h prev [] = Ret (h, VRef prev)"
| "reduce rec h prev (obj # rest) =
     (case keys h obj of
        None \<Rightarrow> Throw
      | Some ks \<Rightarrow>
          (case forEach rec h prev obj ks of
             Ret h1 \<Rightarrow> reduce rec h1 prev rest
           | OutOfFuel \<Rightarrow> OutOfFuel
           | Throw \<Rightarrow> Throw
           | Unmodelled \<Rightarrow> Unmodelled))"

primrec deepMerge :: "nat \<Rightarrow> heap \<Rightarrow> val list \<Rightarrow> (heap \<times> val) res" where
  "deepMerge 0 h objects = OutOfFuel"
| "deepMerge (Suc fuel) h objects = reduce (deepMerge fuel) (h @ [CObj []]) (length h) objects"

subsection \<open>The merge of plain structures\<close>

text \<open>
  A plain nested structure is a finite tree; the merge is stated on trees, and the heap is
  related to them below. \<open>combine\<close> gives the value of a key from an earlier and a later
  value: two sequences give their concatenation, the earlier one first; two structures,
  where a sequence that meets a structure counts as the structure of its indices, are
  merged key by key; otherwise the later value stands.
\<close>

datatype jsv =
    TUndefined | TNull | TBool bool | TNum int | TStr string | TFun nat
  | TArr "jsv list" | TObj "(string \<times> jsv) list"

fun is_seq :: "jsv \<Rightarrow> bool" where
  "is_seq (TArr xs) = True"
| "is_seq j = False"

fun is_struct :: "jsv \<Rightarrow> bool" where
  "is_struct (TArr xs) = True"
| "is_struct (TObj kvs) = True"
| "is_struct j = False"

fun members :: "jsv \<Rightarrow> jsv list" where
  "members (TArr xs) = xs"
| "members j = []"

fun props :: "jsv \<Rightarrow> (string \<times> jsv) list" where
  "props (TObj kvs) = kvs"
| "props (TArr xs) = indexed xs"
| "props j = []"

definition valueAt :: "(string \<times> jsv) list \<Rightarrow> string \<Rightarrow> jsv" where
  "valueAt kvs key = (case map_of kvs key of None \<Rightarrow> TUndefined | Some x \<Rightarrow> x)"

definition mergeWith ::
  "(jsv \<Rightarrow> jsv \<Rightarrow> jsv) \<Rightarrow> (string \<times> jsv) list \<Rightarrow> (string \<times> jsv) list \<Rightarrow> (string \<times> jsv) list" where
  "mergeWith f later acc =
     fold (\<lambda>kv acc. AList.update (fst kv) (f (valueAt acc (fst kv)) (snd kv)) acc) later acc"

function combine :: "jsv \<Rightarrow> jsv \<Rightarrow> jsv" where
  "combine earlier later =
     (if is_seq earlier \<and> is_seq later
      then TArr (members earlier @ members later)
      else if is_struct earlier \<and> is_struct later
      then TObj (fold (\<lambda>kv acc. AList.update (fst kv) (combine (valueAt acc (fst kv)) (snd kv)) acc)
                   (props later) (props earlier))
      else later)"
  by pat_completeness auto
termination
proof (relation "measure (\<lambda>(earlier, later). size later)", goal_cases)
  case 1
  show ?case by simp
next
  case (2 earlier later kv acc)
  have "size (snd kv) < size later"
  proof (cases later)
    case (TArr xs)
    with 2 have "snd kv \<in> set xs"
      by (cases kv) (auto simp: indexed_def dest: set_zip_rightD)
    then show ?thesis
      using TArr by (simp add: size_list_estimation' less_Suc_eq_le)
  next
    case (TObj kvs)
    with 2 have "kv \<in> set kvs" by simp
    then have "size_prod (\<lambda>_. 0) size kv \<le> size_list (size_prod (\<lambda>_. 0) size) kvs"
      by (simp add: size_list_estimation')
    then show ?thesis
      using TObj by (cases kv) simp
  qed (use 2 in simp_all)
  then show ?case by simp
qed

text \<open>The merge of the inputs, from the first to the last, into the empty structure.\<close>

definition merged :: "jsv list \<Rightarrow> jsv" where
  "merged inputs = TObj (fold (\<lambda>j acc. mergeWith combine (props j) acc) inputs [])"

text \<open>The value a key has after merging the inputs in order.\<close>

definition valueOf :: "jsv list \<Rightarrow> string \<Rightarrow> jsv" where
  "valueOf inputs k =
     fold (\<lambda>j earlier. case map_of (props j) k of None \<Rightarrow> earlier | Some later \<Rightarrow> combine earlier later)
       inputs TUndefined"

text \<open>
  Structures none of whose keys is \<open>__proto__\<close>, and structures in which no element of a
  sequence is itself a sequence.
\<close>

fun protoFree :: "jsv \<Rightarrow> bool" where
  "protoFree (TArr xs) = (\<forall>x \<in> set xs. protoFree x)"
| "protoFree (TObj kvs) = (\<forall>kv \<in> set kvs. fst kv \<noteq> ''__proto__'' \<and> protoFree (snd kv))"
| "protoFree j = True"

fun flat :: "jsv \<Rightarrow> bool" where
  "flat (TArr xs) = (\<forall>x \<in> set xs. \<not> is_seq x \<and> flat x)"
| "flat (TObj kvs) = (\<forall>kv \<in> set kvs. flat (snd kv))"
| "flat j = True"

text \<open>The nesting of a structure: the fuel its merge into an earlier value needs.\<close>

fun depth :: "jsv \<Rightarrow> nat" where
  "depth (TArr xs) = Suc (fold max (map depth xs) 0)"
| "depth (TObj kvs) = Suc (fold max (map (\<lambda>kv. depth (snd kv)) kvs) 0)"
| "depth j = 0"

subsection \<open>Heap values and the structures they stand for\<close>

text \<open>
  \<open>represents A h v j\<close>: in the heap \<open>h\<close> the value \<open>v\<close> stands for the tree \<open>j\<close>, through cells
  of \<open>A\<close> only. Cells may be shared, and an object cell has each key once.
\<close>

inductive represents :: "addr set \<Rightarrow> heap \<Rightarrow> val \<Rightarrow> jsv \<Rightarrow> bool"
  for A :: "addr set" and h :: heap where
  undefined: "represents A h VUndefined TUndefined"
| null: "represents A h VNull TNull"
| bool: "represents A h (VBool b) (TBool b)"
| num: "represents A h (VNum i) (TNum i)"
| str: "represents A h (VStr s) (TStr s)"
| func: "represents A h (VFun f) (TFun f)"
| array: "a \<in> A \<Longrightarrow> a < length h \<Longrightarrow> h ! a = CArr vs \<Longrightarrow> list_all2 (represents A h) vs js
           \<Longrightarrow> represents A h (VRef a) (TArr js)"
| object: "a \<in> A \<Longrightarrow> a < length h \<Longrightarrow> h ! a = CObj kvs \<Longrightarrow> distinct (map fst kvs)
           \<Longrightarrow> list_all2 (\<lambda>kv kj. fst kv = fst kj \<and> represents A h (snd kv) (snd kj)) kvs jkvs
           \<Longrightarrow> represents A h (VRef a) (TObj jkvs)"

text \<open>Properties related key by key.\<close>

definition related ::
  "addr set \<Rightarrow> heap \<Rightarrow> (string \<times> val) list \<Rightarrow> (string \<times> jsv) list \<Rightarrow> bool" where
  "related A h kvs jkvs =
     list_all2 (\<lambda>kv kj. fst kv = fst kj \<and> represents A h (snd kv) (snd kj)) kvs jkvs"

text \<open>
  \<open>extends h h'\<close>: \<open>h'\<close> has the cells of \<open>h\<close>, unchanged, and maybe more;
  \<open>extendsBut p h h'\<close> lets the cell \<open>p\<close> differ.
\<close>

definition extends :: "heap \<Rightarrow> heap \<Rightarrow> bool" where
  "extends h h' = (length h \<le> length h' \<and> (\<forall>a < length h. h' ! a = h ! a))"

definition extendsBut :: "addr \<Rightarrow> heap \<Rightarrow> heap \<Rightarrow> bool" where
  "extendsBut p h h' = (length h \<le> length h' \<and> (\<forall>a < length h. a \<noteq> p \<longrightarrow> h' ! a = h ! a))"

text \<open>
  What the accumulator object \<open>prev\<close> holds: its properties are represented by cells of
  \<open>A\<close>, which were there before the accumulator, and by cells made after it.
\<close>

definition reach :: "addr set \<Rightarrow> addr \<Rightarrow> heap \<Rightarrow> addr set" where
  "reach A prev h = A \<union> {prev<..<length h}"

definition holds :: "addr set \<Rightarrow> heap \<Rightarrow> addr \<Rightarrow> (string \<times> jsv) list \<Rightarrow> bool" where
  "holds A h prev acc =
     (prev < length h \<and> A \<subseteq> {..<prev}
      \<and> (\<exists>kvs. h ! prev = CObj kvs \<and> distinct (map fst kvs)
                \<and> related (reach A prev h) h kvs acc))"

text \<open>The recursive call on an earlier and a later value, with fuel for the later one.\<close>

definition rec_ok :: "(heap \<Rightarrow> val list \<Rightarrow> (heap \<times> val) res) \<Rightarrow> nat \<Rightarrow> bool" where
  "rec_ok rec n =
     (\<forall>A h vp vo jp jo.
        A \<subseteq> {..<length h} \<longrightarrow> represents A h vp jp \<longrightarrow> represents A h vo jo \<longrightarrow>
        is_struct jp \<longrightarrow> is_struct jo \<longrightarrow> protoFree jp \<longrightarrow> protoFree jo \<longrightarrow> flat jo \<longrightarrow>
        depth jo \<le> n \<longrightarrow>
        (\<exists>h1 r. rec h [vp, vo] = Ret (h1, r) \<and> extends h h1
                \<and> represents (A \<union> {length h..<length h1}) h1 r (merged [jp, jo])))"

subsection \<open>Sample heaps\<close>

text \<open>
  \<open>heap0\<close> holds \<open>{a: {x: 1}}\<close> at address 1 and \<open>{a: [2]}\<close> at address 3; \<open>heap1\<close> holds
  \<open>{a: [1]}\<close> at address 1 and \<open>{a: [[2], 3]}\<close> at address 4.
\<close>

definition heap0 :: heap where
  "heap0 = [CObj [(''x'', VNum 1)], CObj [(''a'', VRef 0)], CArr [VNum 2], CObj [(''a'', VRef 2)]]"

definition heap1 :: heap where
  "heap1 = [CArr [VNum 1], CObj [(''a'', VRef 0)], CArr [VNum 2], CArr [VRef 2, VNum 3],
            CObj [(''a'', VRef 3)]]"

section \<open>Filtering\<close>

lemma indexOf_sublist: "(indexOf s t > - 1) = sublist t s"
  by (induction s) (auto simp: sublist_Cons_right Let_def)

lemma fold_classList_remove:
  "fold (\<lambda>item w. classList_remove item (f (classNames w)) w) its w
     = w\<lparr>doc := clearClass (f (classNames w)) its (doc w)\<rparr>"
proof (induction its arbitrary: w)
  case Nil
  show ?case by (simp add: clearClass_def)
next
  case (Cons i its)
  show ?case
    by (simp add: Cons.IH) (auto simp: classList_remove_def clearClass_def fun_eq_iff)
qed

lemma fold_filterItem:
  "fold (filterItem v) its w
     = w\<lparr>doc := filtered (cn_itemVisible (classNames w)) v its (doc w),
          hasItemsVisible := hasItemsVisible w \<or> (\<exists>i \<in> set its. matches v (doc w i))\<rparr>"
proof (induction its arbitrary: w)
  case Nil
  show ?case by (simp add: filtered_def)
next
  case (Cons i its)
  show ?case
    apply (simp add: Cons.IH)
    apply (rule widget.equality)
    apply (simp_all add: filterItem_def classList_add_def classList_remove_def indexOf_sublist)
    apply (auto simp: filtered_def matches_def fun_eq_iff insert_Diff_if)
    done
qed

lemma clearClass_simps [simp]:
  "innerText (clearClass c its d n) = innerText (d n)"
  "elem_value (clearClass c its d n) = elem_value (d n)"
  "children (clearClass c its d n) = children (d n)"
  "elem_id (clearClass c its d n) = elem_id (d n)"
  "classList (clearClass c its d n)
     = (if n \<in> set its then classList (d n) - {c} else classList (d n))"
  by (simp_all add: clearClass_def)

lemma filtered_simps [simp]:
  "innerText (filtered c v its d n) = innerText (d n)"
  "elem_value (filtered c v its d n) = elem_value (d n)"
  "children (filtered c v its d n) = children (d n)"
  "elem_id (filtered c v its d n) = elem_id (d n)"
  "classList (filtered c v its d n) =
     (if n \<in> set its
      then (if matches v (d n) then insert c (classList (d n)) else classList (d n) - {c})
      else classList (d n))"
  by (simp_all add: filtered_def)

lemma clearActiveItemStyles_eq:
  "el_items w = Some its \<Longrightarrow>
   clearActiveItemStyles w
     = Normal (w\<lparr>doc := clearClass (cn_itemActive (classNames w)) its (doc w)\<rparr>)"
  by (simp add: clearActiveItemStyles_def fold_classList_remove)

lemma hideItems_eq:
  assumes "el_itemsWrapper w = Ref iw" and "el_items w = Some its"
  shows "hideItems w = Normal (hidden iw its w)"
  using assms
  by (simp add: hideItems_def classList_remove_def clearActiveItemStyles_eq hidden_def Let_def
      list_ex_iff set_value_def stripLineBreaks_def)






section \<open>Hiding the panel\<close>


section \<open>Committing a selection\<close>


section \<open>The guards of init and destroy\<close>

text \<open>
  C8. \<^verbatim>\<open>init\<close> on an input that carries the initialisation class, and \<^verbatim>\<open>destroy\<close> on
  an input that does not, return with the state as it was but for one more line on the
  console: no element, listener or callback record changes.
\<close>

theorem init_destroy_guards:
  "(isInit w \<longrightarrow>
      init w = Normal (w\<lparr>console := console w
                         @ [''Autocomplete is already initialized (id): ''
                            @ elem_id (doc w (el_input w))]\<rparr>))
   \<and> (\<not> isInit w \<longrightarrow>
      destroy w = Normal (w\<lparr>console := console w
                            @ [''Autocomplete is not initialized (id): ''
                               @ elem_id (doc w (el_input w))]\<rparr>))"
  by (simp add: init_def destroy_def)

section \<open>Keyboard navigation\<close>












section \<open>What the handlers keep\<close>

lemma prim_frame [simp]:
  "classNames (classList_add n c w) = classNames w"
  "classNames (classList_remove n c w) = classNames w"
  "classNames (set_value n v w) = classNames w"
  "classNames (removeNode n w) = classNames w"
  "el_items (classList_add n c w) = el_items w"
  "el_items (classList_remove n c w) = el_items w"
  "el_items (set_value n v w) = el_items w"
  "el_items (removeNode n w) = el_items w"
  "el_itemsWrapper (classList_add n c w) = el_itemsWrapper w"
  "el_itemsWrapper (classList_remove n c w) = el_itemsWrapper w"
  "el_itemsWrapper (set_value n v w) = el_itemsWrapper w"
  "el_itemsWrapper (removeNode n w) = el_itemsWrapper w"
  "el_wrapper (classList_add n c w) = el_wrapper w"
  "el_wrapper (classList_remove n c w) = el_wrapper w"
  "el_wrapper (set_value n v w) = el_wrapper w"
  "el_wrapper (removeNode n w) = el_wrapper w"
  "options (classList_add n c w) = options w"
  "options (classList_remove n c w) = options w"
  "options (set_value n v w) = options w"
  "options (removeNode n w) = options w"
  "el_input (classList_add n c w) = el_input w"
  "el_input (classList_remove n c w) = el_input w"
  "el_input (set_value n v w) = el_input w"
  "el_input (removeNode n w) = el_input w"
  "nextNode (classList_add n c w) = nextNode w"
  "nextNode (classList_remove n c w) = nextNode w"
  "nextNode (set_value n v w) = nextNode w"
  "nextNode (removeNode n w) = nextNode w"
  by (simp_all add: classList_add_def classList_remove_def set_value_def removeNode_def)

lemma answered_state: "answered r \<Longrightarrow> r = Normal (state_of r) \<or> r = Threw (state_of r)"
  by (cases r) simp_all

lemma andThen_keeps:
  assumes "P (state_of r)" and "\<And>u. P u \<Longrightarrow> P (state_of (f u))"
  shows "P (state_of (andThen r f))"
  using assms by (cases r) simp_all


lemma continue_keeps:
  assumes "P (state_of r)" and "\<And>u. P u \<Longrightarrow> P (state_of (f u))"
  shows "P (state_of (continue r f))"
  using assms by (cases r) simp_all

lemma sameItems_refl [simp]: "sameItems w w"
  by (simp add: sameItems_def)

lemma sameItems_trans: "sameItems w u \<Longrightarrow> sameItems u v \<Longrightarrow> sameItems w v"
  by (simp add: sameItems_def)

lemma sameItems_then:
  assumes "\<And>u. sameItems u (state_of (g u))"
  shows "sameItems w u \<Longrightarrow> sameItems w (state_of (g u))"
  using assms by (blast intro: sameItems_trans)

lemma sameItems_prim [simp]:
  "sameItems w (classList_add n c w)"
  "sameItems w (classList_remove n c w)"
  "sameItems w (set_value n v w)"
  "sameItems w (removeNode n w)"
  "sameItems w (w\<lparr>el_activeItem := a\<rparr>)"
  "sameItems w (w\<lparr>hasItemsVisible := b\<rparr>)"
  "sameItems w (w\<lparr>console := k\<rparr>)"
  "sameItems w (invoke cb w)"
  by (simp_all add: sameItems_def classList_add_def classList_remove_def set_value_def
      removeNode_def invoke_def split: option.splits)

lemma sameItems_doc:
  "\<forall>n. innerText (d n) = innerText (doc w n) \<Longrightarrow> sameItems w (w\<lparr>doc := d\<rparr>)"
  by (simp add: sameItems_def)

lemma sound_same: "sameItems w u \<Longrightarrow> sound w \<Longrightarrow> sound u"
  by (simp add: sameItems_def sound_def split: option.splits)

lemma same_showItems: "sameItems w (state_of (showItems w))"
  by (cases "el_itemsWrapper w") (simp_all add: showItems_def)

lemma same_clearActiveItemStyles: "sameItems w (state_of (clearActiveItemStyles w))"
  by (cases "el_items w")
    (simp_all add: clearActiveItemStyles_def fold_classList_remove sameItems_doc)

lemma same_hidden: "sameItems w (hidden iw its w)"
  by (simp add: sameItems_def hidden_def Let_def)

lemma same_hideItems: "sameItems w (state_of (hideItems w))"
proof (cases "el_itemsWrapper w")
  case (Ref iw)
  show ?thesis
  proof (cases "el_items w")
    case None
    with Ref show ?thesis
      by (simp add: hideItems_def clearActiveItemStyles_def)
  next
    case (Some its)
    with Ref show ?thesis by (simp add: hideItems_eq same_hidden)
  qed
qed (simp_all add: hideItems_def)

lemma same_fold_filterItem: "sameItems w (fold (filterItem v) its w)"
  by (simp add: fold_filterItem sameItems_def)

lemma same_handleInput: "sameItems w (state_of (handleInput w))"
proof -
  have g: "sameItems w (state_of (case el_items u of
                None \<Rightarrow> Threw (u\<lparr>hasItemsVisible := False\<rparr>)
              | Some its \<Rightarrow> Normal (fold (filterItem v) its (u\<lparr>hasItemsVisible := False\<rparr>))))"
    if "sameItems w u" for u v
  proof -
    from that have "sameItems w (u\<lparr>hasItemsVisible := False\<rparr>)"
      by (simp add: sameItems_def)
    then show ?thesis
      by (cases "el_items u") (auto intro: sameItems_trans same_fold_filterItem)
  qed
  show ?thesis
    unfolding handleInput_def Let_def
    by (rule andThen_keeps) (simp_all add: same_hideItems same_showItems g)
qed

lemma same_setInput: "sameItems w (state_of (setInput v w))"
  unfolding setInput_def
proof (rule andThen_keeps)
  show "sameItems w (state_of (handleInput (set_value (el_input w) v w)))"
    using sameItems_then [of handleInput w "set_value (el_input w) v w"]
    by (simp add: same_handleInput)
  show "sameItems w (state_of (hideItems u))" if "sameItems w u" for u
    using that by (rule sameItems_then [rotated]) (rule same_hideItems)
qed

lemma same_highlight:
  "sameItems u x \<Longrightarrow>
   sameItems u (state_of (case el_activeItem x of
                            Ref a \<Rightarrow> Normal (classList_add a (cn_itemActive (classNames x)) x)
                          | _ \<Rightarrow> Threw x))"
  by (cases "el_activeItem x") (auto intro: sameItems_trans)

lemma same_handleArrowKey: "sameItems w (state_of (handleArrowKey direction w))"
proof (cases "direction = []")
  case True
  then show ?thesis by (simp add: handleArrowKey_def)
next
  case False
  have k: "sameItems w (state_of (case el_itemsWrapper u of Ref iw \<Rightarrow> f iw | _ \<Rightarrow> Threw u))"
    if "sameItems w u" and "\<And>iw. sameItems u (state_of (f iw))" for u f
    using that by (cases "el_itemsWrapper u") (auto intro: sameItems_trans)
  show ?thesis
    unfolding handleArrowKey_def Let_def using False
    apply (simp only: if_False)
    apply (rule andThen_keeps)
     apply (rule same_clearActiveItemStyles)
    apply (erule k)
    apply (rule same_highlight)
    apply (simp add: sameItems_def split: elemref.splits)
    done
qed

lemma same_handleKeydown: "sameItems w (state_of (handleKeydown key w))"
  by (cases "isShownWithItems w"; cases "el_activeItem w")
    (simp_all add: handleKeydown_def same_handleArrowKey same_setInput)

lemma same_handleItemClick: "sameItems w (state_of (handleItemClick n w))"
  by (simp add: handleItemClick_def same_setInput)

lemma same_clickOutside_fn: "sameItems w (state_of (clickOutside_fn es ev w))"
  by (simp add: clickOutside_fn_def same_hideItems)

lemma same_listeners:
  "sameItems w (state_of r) \<Longrightarrow>
   sameItems w (state_of (fold (\<lambda>(l, elements) r. continue r (clickOutside_fn elements ev)) ls r))"
proof (induction ls arbitrary: r)
  case Nil
  then show ?case by simp
next
  case (Cons x ls)
  obtain l es where x: "x = (l, es)" by (cases x)
  have "sameItems w (state_of (continue r (clickOutside_fn es ev)))"
    using Cons.prems
    by (rule continue_keeps) (erule sameItems_then [rotated], rule same_clickOutside_fn)
  then show ?case
    using Cons.IH by (simp add: x)
qed

lemma same_dispatchClick: "sameItems w (state_of (dispatchClick ev w))"
  unfolding dispatchClick_def
  by (rule same_listeners) (simp add: same_handleItemClick split: option.splits)

lemma same_dispatchInput: "sameItems w (state_of (dispatchInput s w))"
  using sameItems_then [of handleInput w "set_value (el_input w) s w"]
  by (simp add: dispatchInput_def Let_def same_handleInput)

lemma same_dispatchKeydown: "sameItems w (state_of (dispatchKeydown k w))"
  by (simp add: dispatchKeydown_def same_handleKeydown)


lemma same_removeEvents: "sameItems w (state_of (removeEvents w))"
  by (cases "cleanup_clickOutside w") (simp_all add: removeEvents_def Let_def sameItems_def)

lemma same_destroyHTML: "sameItems w (state_of (destroyHTML w))"
  by (cases "el_wrapper w")
    (simp_all add: destroyHTML_def sameItems_def classList_remove_def removeNode_def)

lemma same_destroy: "sameItems w (state_of (destroy w))"
proof (cases "isInit w")
  case False
  then show ?thesis by (simp add: destroy_def)
next
  case True
  have "sameItems w (state_of (
        andThen (destroyHTML w) (\<lambda>w.
        andThen (removeEvents w) (\<lambda>w.
        Normal (invoke (opt_onDestroy (options w))
                  (classList_remove (el_input w) (cn_init (classNames w)) w))))))"
    apply (rule andThen_keeps)
     apply (rule same_destroyHTML)
    apply (rule andThen_keeps)
     apply (erule sameItems_then [rotated])
     apply (rule same_removeEvents)
    apply (simp add: sameItems_def invoke_def classList_remove_def split: option.splits)
    done
  with True show ?thesis by (simp add: destroy_def)
qed

section \<open>Generating the items\<close>

lemma appendDiv_frame [simp]:
  "classNames (appendDiv p cs t w) = classNames w"
  "el_items (appendDiv p cs t w) = el_items w"
  "el_itemsWrapper (appendDiv p cs t w) = el_itemsWrapper w"
  "el_wrapper (appendDiv p cs t w) = el_wrapper w"
  "el_input (appendDiv p cs t w) = el_input w"
  "options (appendDiv p cs t w) = options w"
  "nextNode (appendDiv p cs t w) = Suc (nextNode w)"
  by (simp_all add: appendDiv_def Let_def)

lemma fold_appendDiv_frame [simp]:
  "classNames (fold (appendDiv p cs) ts w) = classNames w"
  "el_items (fold (appendDiv p cs) ts w) = el_items w"
  "el_itemsWrapper (fold (appendDiv p cs) ts w) = el_itemsWrapper w"
  "el_wrapper (fold (appendDiv p cs) ts w) = el_wrapper w"
  "el_input (fold (appendDiv p cs) ts w) = el_input w"
  "options (fold (appendDiv p cs) ts w) = options w"
  "nextNode (fold (appendDiv p cs) ts w) = nextNode w + length ts"
  by (induction ts arbitrary: w) simp_all

lemma fold_appendDiv_names:
  "fold (\<lambda>txt u. appendDiv iw {cn_item (classNames u), cn_itemVisible (classNames u)} txt u) ts w
     = fold (appendDiv iw {cn_item (classNames w), cn_itemVisible (classNames w)}) ts w"
  by (induction ts arbitrary: w) simp_all







section \<open>Sound states, and at most one highlighted item\<close>

lemma keeps_refl [simp]: "keeps w w"
  by (simp add: keeps_def)



lemma activeItems_cong:
  "doc w' = doc w \<Longrightarrow> el_items w' = el_items w \<Longrightarrow> classNames w' = classNames w
     \<Longrightarrow> activeItems w' = activeItems w"
  by (auto simp: activeItems_def classList_contains_def split: option.splits)

lemma oneActive_subset: "oneActive w \<Longrightarrow> activeItems u \<subseteq> activeItems w \<Longrightarrow> oneActive u"
  unfolding oneActive_def by (simp add: subset_iff)


lemma keepsI:
  assumes "sameItems w u"
    and "sound w \<Longrightarrow> activeClassApart (classNames w) \<Longrightarrow> oneActive w \<Longrightarrow> oneActive u"
  shows "keeps w u"
  using assms sound_same [of w u] by (auto simp: keeps_def sameItems_def)

lemma keeps_subset:
  assumes "sameItems w u" and "activeItems u \<subseteq> activeItems w"
  shows "keeps w u"
  using assms(1) by (rule keepsI) (rule oneActive_subset [OF _ assms(2)])





lemma keeps_add:
  assumes "activeClassApart (classNames w) \<Longrightarrow> c \<noteq> cn_itemActive (classNames w)"
  shows "keeps w (classList_add n c w)"
proof (rule keepsI)
  assume "activeClassApart (classNames w)" and o: "oneActive w"
  then have "activeItems (classList_add n c w) \<subseteq> activeItems w"
    using assms
    by (auto simp: activeItems_def classList_add_def classList_contains_def split: option.splits)
  with o show "oneActive (classList_add n c w)" by (rule oneActive_subset)
qed simp



lemma keeps_cleared:
  "keeps w (w\<lparr>doc := clearClass c its (doc w)\<rparr>)"
  by (rule keeps_subset, simp add: sameItems_def)
    (auto simp: activeItems_def classList_contains_def split: option.splits)

lemma keeps_clearActiveItemStyles: "keeps w (state_of (clearActiveItemStyles w))"
  by (cases "el_items w")
    (simp_all add: clearActiveItemStyles_def fold_classList_remove keeps_cleared)


lemma hidden_frame [simp]:
  "classNames (hidden iw its w) = classNames w"
  "el_items (hidden iw its w) = el_items w"
  "el_itemsWrapper (hidden iw its w) = el_itemsWrapper w"
  "el_input (hidden iw its w) = el_input w"
  "options (hidden iw its w) = options w"
  "el_activeItem (hidden iw its w) = JNull"
  by (simp_all add: hidden_def Let_def)



lemma filterItem_frame [simp]:
  "classNames (filterItem v item w) = classNames w"
  "el_items (filterItem v item w) = el_items w"
  by (simp_all add: filterItem_def)

















lemma generateItems_classNames [simp]:
  "classNames (state_of (generateItems items w)) = classNames w"
  by (auto simp: generateItems_def Let_def fold_appendDiv_names
      split: elemref.splits option.splits)



lemma appendChild_frame [simp]:
  "classNames (appendChild p n w) = classNames w"
  "el_items (appendChild p n w) = el_items w"
  "el_itemsWrapper (appendChild p n w) = el_itemsWrapper w"
  "el_wrapper (appendChild p n w) = el_wrapper w"
  "el_input (appendChild p n w) = el_input w"
  "options (appendChild p n w) = options w"
  "nextNode (appendChild p n w) = nextNode w"
  by (simp_all add: appendChild_def Let_def)







section \<open>Filtering the item list\<close>

lemma decodeText_plain:
  "list_all printable s \<Longrightarrow> CHR ''&'' \<notin> set s \<Longrightarrow> CHR ''<'' \<notin> set s \<Longrightarrow> decodeText s = Some s"
  by (induction s) auto

text \<open>A string of printable characters without \<^verbatim>\<open>&\<close> and \<^verbatim>\<open><\<close> is displayed as it is.\<close>

lemma displayedText_plain:
  "list_all printable s \<Longrightarrow> CHR ''&'' \<notin> set s \<Longrightarrow> CHR ''<'' \<notin> set s \<Longrightarrow> tidy s
     \<Longrightarrow> displayedText s = Some s"
  by (simp add: displayedText_def decodeText_plain)


section \<open>The sample widget\<close>

lemma default_tokens:
  "classToken ''autocomplete-wrapper''" "classToken ''autocomplete-items-wrapper''"
  "classToken ''autocomplete-item''" "classToken ''is-visible''"
  by (simp_all add: classToken_def letter_def digitChar_def)

lemmas text_eval = displayedText_def tidy_def charRef_def letter_def digitChar_def printable_def
  sublist_Cons_right prefix_Cons

lemma sample_texts:
  "displayedText ''Apple'' = Some ''Apple''" "displayedText ''Banana'' = Some ''Banana''"
  "displayedText ''Cherry'' = Some ''Cherry''" "displayedText ''One'' = Some ''One''"
  "displayedText ''Two'' = Some ''Two''" "displayedText ''R&amp;B'' = Some ''R&B''"
  by (simp_all add: text_eval)

lemmas build_defs = Autocomplete_def init_def isInit_def classList_contains_def page0_def
  blank_def DEFAULT_CLASS_NAMES_def DEFAULT_OPTIONS_def generateHTML_def generateItems_def
  Let_def classList_add_def appendDiv_def appendChild_def removeNode_def querySelector_def
  querySelectorAll_def addEvents_def clickOutside_def
  invoke_def page.defs widget.defs default_tokens sample_texts


lemma fruit_made:
  "Autocomplete 0 (DEFAULT_OPTIONS\<lparr>opt_items := [''Apple'', ''Banana'', ''Cherry'']\<rparr>)
     DEFAULT_CLASS_NAMES page0
   = Normal (fruit_state [] {''autocomplete-items-wrapper''}
       {''autocomplete-item'', ''is-visible''} {''autocomplete-item'', ''is-visible''}
       {''autocomplete-item'', ''is-visible''} JNull False)"
  by (simp add: fruit_state_def item_el_def build_defs fun_eq_iff eval_nat_numeral
      insert_commute)

lemma fruit_eq:
  "fruit = fruit_state [] {''autocomplete-items-wrapper''}
     {''autocomplete-item'', ''is-visible''} {''autocomplete-item'', ''is-visible''}
     {''autocomplete-item'', ''is-visible''} JNull False"
  by (simp add: fruit_def fruit_made)

lemmas sample_defs = typed_a_def apple_active_def banana_active_def stale_ap_def stale_e_def
  renewed_def renewed_a_def renewed_o_def fruit_state_def item_el_def blank_def
  DEFAULT_CLASS_NAMES_def DEFAULT_OPTIONS_def

lemmas handler_defs = dispatchInput_def dispatchKeydown_def handleInput_def handleKeydown_def
  handleArrowKey_def hideItems_def showItems_def clearActiveItemStyles_def filterItem_def
  setInput_def set_value_def stripLineBreaks_def classList_add_def classList_remove_def
  classList_contains_def
  isShownWithItems_def querySelectorAll_def at_index_def toLowerCase_def lower_char_def Let_def
  prefix_Cons fun_eq_iff eval_nat_numeral

lemma step_type_a: "step (Type ''a'') fruit = Normal typed_a"
  unfolding fruit_eq by (simp add: sample_defs handler_defs; auto?)

lemma step_down_1: "step (Key ''ArrowDown'') typed_a = Normal apple_active"
  by (simp add: sample_defs handler_defs; auto?)

lemma step_down_2: "step (Key ''ArrowDown'') apple_active = Normal banana_active"
  by (simp add: sample_defs handler_defs; auto?)

lemma step_type_ap: "step (Type ''ap'') banana_active = Normal stale_ap"
  by (simp add: sample_defs handler_defs; auto?)


lemma step_setItems: "step (SetItems [''One'', ''Two'']) apple_active = Normal renewed_a"
  by (simp add: sample_defs handler_defs setItems_def generateItems_def appendDiv_def
      removeNode_def querySelector_def default_tokens sample_texts; auto?)

lemma step_type_o: "step (Type ''o'') renewed_a = Normal renewed_o"
  by (simp add: sample_defs handler_defs; auto?)





text \<open>
  C3 fails on the code: after typing \<^verbatim>\<open>a\<close>, two presses of ArrowDown and the text
  changed to \<^verbatim>\<open>ap\<close>, only Apple is visible and the active item is still Banana. ArrowUp
  then reads \<^verbatim>\<open>items[-2]\<close>, stores \<^verbatim>\<open>undefined\<close> as the active item and throws on
  \<^verbatim>\<open>undefined.classList\<close>.
\<close>

theorem arrow_up_stale_active:
  "run [Type ''a'', Key ''ArrowDown'', Key ''ArrowDown'', Type ''ap''] fruit = stale_ap
   \<and> isShownWithItems stale_ap = Some True
   \<and> querySelectorAll 2 ''is-visible'' stale_ap = [3]
   \<and> el_activeItem stale_ap = Ref 4
   \<and> handleKeydown ''ArrowUp'' stale_ap
       = Threw (fruit_state ''ap'' {''autocomplete-items-wrapper'', ''is-visible''}
                 {''autocomplete-item'', ''is-visible''} {''autocomplete-item''}
                 {''autocomplete-item''} JUndefined True)"
proof -
  have "run [Type ''a'', Key ''ArrowDown'', Key ''ArrowDown'', Type ''ap''] fruit = stale_ap"
    by (simp add: run_def step_type_a step_down_1 step_down_2 step_type_ap del: step.simps)
  moreover have "isShownWithItems stale_ap = Some True"
    "querySelectorAll 2 ''is-visible'' stale_ap = [3]" "el_activeItem stale_ap = Ref 4"
    by (simp_all add: sample_defs isShownWithItems_def classList_contains_def querySelectorAll_def)
  moreover have "handleKeydown ''ArrowUp'' stale_ap
       = Threw (fruit_state ''ap'' {''autocomplete-items-wrapper'', ''is-visible''}
                 {''autocomplete-item'', ''is-visible''} {''autocomplete-item''}
                 {''autocomplete-item''} JUndefined True)"
    by (simp add: sample_defs handler_defs; auto?)
  ultimately show ?thesis by simp
qed




text \<open>
  C7 fails on the code: \<^verbatim>\<open>setItems\<close> leaves \<^verbatim>\<open>this.elements.activeItem\<close> and
  \<^verbatim>\<open>this.temp.hasItemsVisible\<close> as they were. With Apple active, after
  \<^verbatim>\<open>setItems(['One', 'Two'])\<close> the active item is still the discarded Apple element;
  typing \<^verbatim>\<open>o\<close> and pressing Enter then puts \<^verbatim>\<open>Apple\<close> into the input.
\<close>

theorem setItems_keeps_active_item:
  "run [Type ''a'', Key ''ArrowDown'', SetItems [''One'', ''Two'']] fruit = renewed_a
   \<and> el_items renewed_a = Some [7, 8]
   \<and> el_activeItem renewed_a = Ref 3
   \<and> innerText (doc renewed_a 3) = ''Apple''
   \<and> hasItemsVisible renewed_a
   \<and> step (Type ''o'') renewed_a = Normal renewed_o
   \<and> isShownWithItems renewed_o = Some True
   \<and> elem_value (doc (state_of (step (Key ''Enter'') renewed_o)) (el_input renewed_o)) = ''Apple''"
proof -
  have "run [Type ''a'', Key ''ArrowDown'', SetItems [''One'', ''Two'']] fruit = renewed_a"
    by (simp add: run_def step_type_a step_down_1 step_setItems del: step.simps)
  moreover have "el_items renewed_a = Some [7, 8]" "el_activeItem renewed_a = Ref 3"
    "innerText (doc renewed_a 3) = ''Apple''" "hasItemsVisible renewed_a"
    "isShownWithItems renewed_o = Some True"
    by (simp_all add: sample_defs Let_def isShownWithItems_def classList_contains_def)
  moreover have "elem_value (doc (state_of (step (Key ''Enter'') renewed_o)) (el_input renewed_o))
      = ''Apple''"
    by (simp add: sample_defs handler_defs)
  ultimately show ?thesis by (simp add: step_type_o del: step.simps)
qed

text \<open>Witness of C8: the sample widget, and the same widget destroyed.\<close>

theorem init_destroy_guards_witness:
  "isInit fruit
   \<and> init fruit
       = Normal (fruit\<lparr>console := [''Autocomplete is already initialized (id): search'']\<rparr>)
   \<and> \<not> isInit (state_of (destroy fruit))
   \<and> destroy (state_of (destroy fruit))
       = Normal ((state_of (destroy fruit))
                   \<lparr>console := [''Autocomplete is not initialized (id): search'']\<rparr>)"
proof -
  have a: "isInit fruit" "console fruit = []" "elem_id (doc fruit (el_input fruit)) = ''search''"
    by (simp_all add: fruit_eq sample_defs isInit_def classList_contains_def)
  have b: "\<not> isInit (state_of (destroy fruit))" "console (state_of (destroy fruit)) = []"
    "elem_id (doc (state_of (destroy fruit)) (el_input (state_of (destroy fruit)))) = ''search''"
    by (simp_all add: fruit_eq sample_defs isInit_def classList_contains_def destroy_def
        destroyHTML_def removeEvents_def removeNode_def invoke_def classList_remove_def)
  from init_destroy_guards [of fruit] init_destroy_guards [of "state_of (destroy fruit)"] a b
  show ?thesis by simp
qed

text \<open>
  C9 fails on the code: the outside-click listener compares with the items container
  it captured in \<^verbatim>\<open>addEvents\<close> (node 2). After \<^verbatim>\<open>setItems\<close> the widget's container is
  node 6, and a click on it (inside the wrapper, node 1) hides the panel.
\<close>

theorem click_in_new_container_hides:
  "run [Type ''a'', Key ''ArrowDown'', SetItems [''One'', ''Two''], Type ''o''] fruit = renewed_o
   \<and> el_itemsWrapper renewed_o = Ref 6
   \<and> docClickListeners renewed_o = [(0, [el_input renewed_o, 2])]
   \<and> classList_contains 6 ''is-visible'' renewed_o
   \<and> \<not> classList_contains 6 ''is-visible''
         (state_of (step (Click \<lparr>target = 6, ancestors = [1]\<rparr>) renewed_o))"
proof -
  have "run [Type ''a'', Key ''ArrowDown'', SetItems [''One'', ''Two''], Type ''o''] fruit = renewed_o"
    by (simp add: run_def step_type_a step_down_1 step_setItems step_type_o del: step.simps)
  moreover have "el_itemsWrapper renewed_o = Ref 6"
    "docClickListeners renewed_o = [(0, [el_input renewed_o, 2])]"
    "classList_contains 6 ''is-visible'' renewed_o"
    by (simp_all add: sample_defs Let_def classList_contains_def)
  moreover have "\<not> classList_contains 6 ''is-visible''
         (state_of (step (Click \<lparr>target = 6, ancestors = [1]\<rparr>) renewed_o))"
    by (simp add: sample_defs handler_defs dispatchClick_def clickOutside_fn_def)
  ultimately show ?thesis by simp
qed








section \<open>deepMerge\<close>

subsection \<open>deepMerge changes no cell it was given\<close>

lemma extends_refl [simp]: "extends h h" "extendsBut p h h"
  by (simp_all add: extends_def extendsBut_def)

lemma extends_take: "extends h h' \<longleftrightarrow> take (length h) h' = h"
  by (auto simp: extends_def list_eq_iff_nth_eq)

lemma extendsBut_trans: "extendsBut p h1 h2 \<Longrightarrow> extendsBut p h2 h3 \<Longrightarrow> extendsBut p h1 h3"
  by (auto simp: extendsBut_def)

lemma extends_imp_But: "extends h h' \<Longrightarrow> extendsBut p h h'"
  by (simp add: extends_def extendsBut_def)

lemma setOwn_length [simp]: "length (setOwn h a key v) = length h"
  by (simp add: setOwn_def split: cell.splits)

lemma setOwn_other: "b \<noteq> a \<Longrightarrow> setOwn h a key v ! b = h ! b"
  by (simp add: setOwn_def split: cell.splits)

lemma extendsBut_setOwn: "extendsBut p h (setOwn h p key v)"
  by (simp add: extendsBut_def setOwn_other)

lemma extends_concat_spread: "concat_spread h x y = (h1, r) \<Longrightarrow> extends h h1"
  by (auto simp: concat_spread_def extends_def nth_append)

lemma forEach_arrays:
  "key \<noteq> ''__proto__'' \<Longrightarrow>
   isArray h (getOwn h (VRef prev) key) \<Longrightarrow> isArray h (getOwn h obj key) \<Longrightarrow>
   forEach rec h prev obj (key # rest)
     = (case concat_spread h (getOwn h (VRef prev) key) (getOwn h obj key) of
          (h1, arr) \<Rightarrow> forEach rec (setOwn h1 prev key arr) prev obj rest)"
  by (simp add: getProp_def setProp_def)

lemma forEach_objects:
  "key \<noteq> ''__proto__'' \<Longrightarrow>
   \<not> (isArray h (getOwn h (VRef prev) key) \<and> isArray h (getOwn h obj key)) \<Longrightarrow>
   isObject (getOwn h (VRef prev) key) \<Longrightarrow> isObject (getOwn h obj key) \<Longrightarrow>
   forEach rec h prev obj (key # rest)
     = (case rec h [getOwn h (VRef prev) key, getOwn h obj key] of
          Ret (h1, r) \<Rightarrow> forEach rec (setOwn h1 prev key r) prev obj rest
        | OutOfFuel \<Rightarrow> OutOfFuel
        | Throw \<Rightarrow> Throw
        | Unmodelled \<Rightarrow> Unmodelled)"
  by (auto simp: getProp_def setProp_def split: res.splits)

lemma forEach_later:
  "key \<noteq> ''__proto__'' \<Longrightarrow>
   \<not> (isArray h (getOwn h (VRef prev) key) \<and> isArray h (getOwn h obj key)) \<Longrightarrow>
   \<not> (isObject (getOwn h (VRef prev) key) \<and> isObject (getOwn h obj key)) \<Longrightarrow>
   forEach rec h prev obj (key # rest)
     = forEach rec (setOwn h prev key (getOwn h obj key)) prev obj rest"
  by (auto simp: getProp_def setProp_def)

lemma forEach_proto: "forEach rec h prev obj (''__proto__'' # rest) = Unmodelled"
  by (simp add: getProp_def)

lemma forEach_frame:
  assumes rec: "\<And>h xs h' r. rec h xs = Ret (h', r) \<Longrightarrow> extends h h'"
  shows "forEach rec h prev obj ks = Ret h' \<Longrightarrow> extendsBut prev h h'"
proof (induction ks arbitrary: h)
  case Nil
  then show ?case by simp
next
  case (Cons key rest)
  let ?p = "getOwn h (VRef prev) key"
  let ?o = "getOwn h obj key"
  have key: "key \<noteq> ''__proto__''"
    using Cons.prems by (auto simp: forEach_proto simp del: forEach.simps)
  show ?case
  proof (cases "isArray h ?p \<and> isArray h ?o")
    case True
    obtain h1 arr where c: "concat_spread h ?p ?o = (h1, arr)" by (cases "concat_spread h ?p ?o")
    with True Cons.prems key have "forEach rec (setOwn h1 prev key arr) prev obj rest = Ret h'"
      by (simp add: forEach_arrays del: forEach.simps)
    then have "extendsBut prev (setOwn h1 prev key arr) h'" by (rule Cons.IH)
    moreover have "extendsBut prev h h1"
      using extends_concat_spread [OF c] by (rule extends_imp_But)
    ultimately show ?thesis
      using extendsBut_setOwn [of prev h1 key arr] by (blast intro: extendsBut_trans)
  next
    case False
    note na = this
    show ?thesis
    proof (cases "isObject ?p \<and> isObject ?o")
      case True
      with na Cons.prems key obtain h1 m where r: "rec h [?p, ?o] = Ret (h1, m)"
        and f: "forEach rec (setOwn h1 prev key m) prev obj rest = Ret h'"
        by (auto simp: forEach_objects simp del: forEach.simps split: res.splits)
      from f have "extendsBut prev (setOwn h1 prev key m) h'" by (rule Cons.IH)
      moreover have "extendsBut prev h h1"
        using rec [OF r] by (rule extends_imp_But)
      ultimately show ?thesis
        using extendsBut_setOwn [of prev h1 key m] by (blast intro: extendsBut_trans)
    next
      case False
      with na Cons.prems key have "forEach rec (setOwn h prev key ?o) prev obj rest = Ret h'"
        by (simp add: forEach_later del: forEach.simps)
      then have "extendsBut prev (setOwn h prev key ?o) h'" by (rule Cons.IH)
      then show ?thesis
        using extendsBut_setOwn [of prev h key ?o] by (blast intro: extendsBut_trans)
    qed
  qed
qed

lemma reduce_frame:
  assumes rec: "\<And>h xs h' r. rec h xs = Ret (h', r) \<Longrightarrow> extends h h'"
  shows "reduce rec h prev objs = Ret (h', r) \<Longrightarrow> extendsBut prev h h' \<and> r = VRef prev"
proof (induction objs arbitrary: h)
  case Nil
  then show ?case by simp
next
  case (Cons obj rest)
  then obtain ks h1 where f: "forEach rec h prev obj ks = Ret h1"
    and g: "reduce rec h1 prev rest = Ret (h', r)"
    by (auto split: option.splits res.splits)
  have "extendsBut prev h h1"
    using rec f by (rule forEach_frame)
  with Cons.IH [OF g] show ?case
    by (blast intro: extendsBut_trans)
qed

lemma deepMerge_frame: "deepMerge fuel h objs = Ret (h', r) \<Longrightarrow> extends h h'"
proof (induction fuel arbitrary: h objs h' r)
  case 0
  then show ?case by simp
next
  case (Suc fuel)
  from Suc.prems have "reduce (deepMerge fuel) (h @ [CObj []]) (length h) objs = Ret (h', r)"
    by simp
  then have "extendsBut (length h) (h @ [CObj []]) h'"
    using reduce_frame [of "deepMerge fuel"] Suc.IH by blast
  then show ?case
    by (auto simp: extends_def extendsBut_def nth_append)
qed

subsection \<open>Index keys\<close>

declare dec.simps [simp del] combine.simps [simp del]

lemma digit_inj: "a < 10 \<Longrightarrow> b < 10 \<Longrightarrow> digit a = digit b \<Longrightarrow> a = b"
proof -
  have d: "distinct ''0123456789''" by simp
  assume "a < 10" "b < 10" "digit a = digit b"
  then show ?thesis
    using nth_eq_iff_index_eq [OF d, of a b] by (simp add: digit_def)
qed

lemma dec_nonempty: "dec n \<noteq> []"
  by (subst dec.simps) simp

lemma dec_inj: "dec n = dec m \<Longrightarrow> n = m"
proof (induction n arbitrary: m rule: dec.induct)
  case (1 n)
  show ?case
  proof (cases "n < 10")
    case True
    note n = this
    show ?thesis
    proof (cases "m < 10")
      case True
      with n "1.prems" show ?thesis
        by (subst (asm) dec.simps, subst (asm) (2) dec.simps) (simp add: digit_inj)
    next
      case False
      with n "1.prems" show ?thesis
        using dec_nonempty [of "m div 10"]
        by (subst (asm) dec.simps, subst (asm) (2) dec.simps) simp
    qed
  next
    case False
    note n = this
    show ?thesis
    proof (cases "m < 10")
      case True
      with n "1.prems" show ?thesis
        using dec_nonempty [of "n div 10"]
        by (subst (asm) dec.simps, subst (asm) (2) dec.simps) simp
    next
      case False
      with n "1.prems" have "dec (n div 10) = dec (m div 10)" "digit (n mod 10) = digit (m mod 10)"
        by (subst (asm) dec.simps, subst (asm) (2) dec.simps, simp)+
      then have "n div 10 = m div 10" "n mod 10 = m mod 10"
        using "1.IH" [OF n] by (simp_all add: digit_inj)
      then show ?thesis
        by (metis div_mult_mod_eq)
    qed
  qed
qed

lemma distinct_indexed: "distinct (map fst (indexed xs))"
proof -
  have "distinct (map dec [0..<length xs])"
    by (simp add: distinct_map inj_on_def dec_inj)
  then show ?thesis by (simp add: indexed_def)
qed

lemma map_of_indexed: "i < length xs \<Longrightarrow> map_of (indexed xs) (dec i) = Some (xs ! i)"
proof -
  assume i: "i < length xs"
  have "distinct (map fst (indexed xs))" by (rule distinct_indexed)
  moreover have "(dec i, xs ! i) \<in> set (indexed xs)"
    using i by (force simp: indexed_def set_zip)
  ultimately show ?thesis by simp
qed

lemma dec_digits: "set (dec n) \<subseteq> set ''0123456789''"
proof (induction n rule: dec.induct)
  case (1 n)
  have d: "digit k \<in> set ''0123456789''" if "k < 10" for k
    unfolding digit_def using that by (intro nth_mem) simp
  show ?case
  proof (cases "n < 10")
    case True
    then show ?thesis
      using d [of n] by (subst dec.simps) simp
  next
    case False
    then show ?thesis
      using "1.IH" d [of "n mod 10"] by (subst dec.simps) simp
  qed
qed

lemma dec_not_proto: "dec n \<noteq> ''__proto__''"
proof
  assume "dec n = ''__proto__''"
  then have "CHR ''_'' \<in> set (dec n)" by simp
  with dec_digits [of n] show False by auto
qed

subsection \<open>Keys and nesting of the structures\<close>

lemma protoFree_props:
  assumes "protoFree j" and "kv \<in> set (props j)"
  shows "fst kv \<noteq> ''__proto__''" and "protoFree (snd kv)"
proof -
  show "fst kv \<noteq> ''__proto__''"
  proof (cases j)
    case (TArr xs)
    with assms(2) obtain i where "dec i = fst kv"
      by (auto simp: indexed_def in_set_zip)
    then show ?thesis using dec_not_proto [of i] by simp
  qed (use assms in auto)
  show "protoFree (snd kv)"
  proof (cases j)
    case (TArr xs)
    with assms(2) have "snd kv \<in> set xs"
      by (auto simp: indexed_def in_set_zip) (metis nth_mem)
    with assms(1) TArr show ?thesis by simp
  qed (use assms in auto)
qed

lemma protoFree_valueAt: "\<forall>kv \<in> set kvs. protoFree (snd kv) \<Longrightarrow> protoFree (valueAt kvs k)"
proof (cases "map_of kvs k")
  case None
  then show ?thesis by (simp add: valueAt_def)
next
  case (Some x)
  assume a: "\<forall>kv \<in> set kvs. protoFree (snd kv)"
  from Some have "(k, x) \<in> set kvs" by (rule map_of_SomeD)
  with a have "protoFree (snd (k, x))" by blast
  with Some show ?thesis by (simp add: valueAt_def)
qed

lemma flat_props:
  assumes "flat j" and "kv \<in> set (props j)"
  shows "flat (snd kv)"
proof (cases j)
  case (TArr xs)
  with assms(2) have "snd kv \<in> set xs"
    by (auto simp: indexed_def in_set_zip) (metis nth_mem)
  with assms(1) TArr show ?thesis by simp
qed (use assms in auto)

lemma flat_valueAt: "flat j \<Longrightarrow> flat (valueAt (props j) k)"
proof (cases "map_of (props j) k")
  case None
  then show ?thesis by (simp add: valueAt_def)
next
  case (Some x)
  assume "flat j"
  moreover from Some have "(k, x) \<in> set (props j)" by (rule map_of_SomeD)
  ultimately have "flat (snd (k, x))" by (rule flat_props)
  with Some show ?thesis by (simp add: valueAt_def)
qed

lemma flat_members: "flat j \<Longrightarrow> x \<in> set (members j) \<Longrightarrow> \<not> is_seq x"
  by (cases j) auto

lemma protoFree_update:
  assumes "\<forall>kv \<in> set acc. fst kv \<noteq> ''__proto__'' \<and> protoFree (snd kv)"
    and "key \<noteq> ''__proto__''" and "protoFree v"
  shows "\<forall>kv \<in> set (AList.update key v acc). fst kv \<noteq> ''__proto__'' \<and> protoFree (snd kv)"
  using assms by (induction acc) auto

subsection \<open>Represented structures\<close>

lemma represents_transfer:
  assumes "represents A h v j" and "A \<subseteq> B"
    and "\<And>a. a \<in> A \<Longrightarrow> a < length h \<Longrightarrow> a < length h' \<and> h' ! a = h ! a"
  shows "represents B h' v j"
  using assms(1)
proof (induction rule: represents.induct)
  case (array a vs js)
  from array.IH have "list_all2 (represents B h') vs js"
    by (rule list_all2_mono) simp
  with array.hyps(1-3) assms(2,3) show ?case
    by (auto intro!: represents.array)
next
  case (object a kvs jkvs)
  from object.IH
  have "list_all2 (\<lambda>kv kj. fst kv = fst kj \<and> represents B h' (snd kv) (snd kj)) kvs jkvs"
    by (rule list_all2_mono) simp
  with object.hyps(1-4) assms(2,3) show ?case
    by (auto intro!: represents.object)
qed (auto intro: represents.intros)

lemma related_transfer:
  assumes "related A h kvs jkvs" and "A \<subseteq> B"
    and "\<And>a. a \<in> A \<Longrightarrow> a < length h \<Longrightarrow> a < length h' \<and> h' ! a = h ! a"
  shows "related B h' kvs jkvs"
  using assms(1) unfolding related_def
  by (rule list_all2_mono) (auto intro: represents_transfer [OF _ assms(2,3)])

lemma represents_kind:
  assumes "represents A h v j"
  shows "isArray h v = is_seq j" and "isObject v = is_struct j"
  using assms by (induction rule: represents.induct) (simp_all add: isArray_def isObject_def)

lemma related_indexed:
  "list_all2 (represents A h) vs js \<Longrightarrow> related A h (indexed vs) (indexed js)"
  unfolding related_def indexed_def
  by (auto simp: list_all2_conv_all_nth)

lemma represents_props:
  assumes "represents A h v j" and "is_struct j"
  shows "\<exists>kvs. ownProperties h v = Some kvs \<and> distinct (map fst kvs) \<and> related A h kvs (props j)"
  using assms
proof (cases rule: represents.cases)
  case (array a vs js)
  then show ?thesis
    by (simp add: ownProperties_def distinct_indexed related_indexed)
next
  case (object a kvs jkvs)
  then show ?thesis
    by (simp add: ownProperties_def related_def)
qed simp_all

lemma related_keys: "related A h kvs jkvs \<Longrightarrow> map fst kvs = map fst jkvs"
  unfolding related_def by (induction rule: list_all2_induct) simp_all

lemma related_lookup:
  assumes "related A h kvs jkvs"
  shows "represents A h (case map_of kvs key of None \<Rightarrow> VUndefined | Some x \<Rightarrow> x)
           (valueAt jkvs key)"
  using assms unfolding related_def valueAt_def
  by (induction rule: list_all2_induct) (auto intro: represents.undefined)

lemma related_update:
  assumes "related A h kvs jkvs" and "represents A h v j"
  shows "related A h (AList.update key v kvs) (AList.update key j jkvs)"
  using assms unfolding related_def
  by (induction rule: list_all2_induct) auto

lemma represents_getOwn:
  assumes "represents A h v j" and "is_struct j"
  shows "represents A h (getOwn h v key) (valueAt (props j) key)"
proof -
  from represents_props [OF assms] obtain kvs where "ownProperties h v = Some kvs"
    and "related A h kvs (props j)" by blast
  then show ?thesis
    using related_lookup [of A h kvs "props j" key] by (simp add: getOwn_def)
qed

lemma represents_keys:
  assumes "represents A h v j" and "is_struct j"
  shows "keys h v = Some (map fst (props j))" and "distinct (map fst (props j))"
proof -
  from represents_props [OF assms] obtain kvs where k: "ownProperties h v = Some kvs"
    "distinct (map fst kvs)" "related A h kvs (props j)" by blast
  from related_keys [OF k(3)] k(1,2)
  show "keys h v = Some (map fst (props j))" "distinct (map fst (props j))"
    by (simp_all add: keys_def)
qed

subsection \<open>Concatenation, and the accumulator\<close>

lemma represents_elements:
  assumes "represents A h v j" and "is_seq j"
  shows "list_all2 (represents A h) (arrayElements h v) (members j)"
  using assms by (cases rule: represents.cases) (simp_all add: arrayElements_def)

lemma represents_spreadable:
  assumes "represents A h x j" and "\<not> is_seq j"
  shows "spreadable h x = [x]"
  using represents_kind(1) [OF assms(1)] assms(2) by (simp add: spreadable_def)

lemma represents_concat_spread:
  assumes p: "represents A h vp jp" "is_seq jp" and o: "represents A h vo jo" "is_seq jo"
    and f: "\<forall>x \<in> set (members jo). \<not> is_seq x"
    and A: "A \<subseteq> {..<length h}"
    and c: "concat_spread h vp vo = (h1, arr)"
  shows "represents (A \<union> {length h..<length h1}) h1 arr (TArr (members jp @ members jo))"
proof -
  let ?vs = "arrayElements h vp @ arrayElements h vo"
  have e: "list_all2 (represents A h) (arrayElements h vo) (members jo)"
    using o by (rule represents_elements)
  have m: "map (spreadable h) (arrayElements h vo) = map (\<lambda>x. [x]) (arrayElements h vo)"
  proof (rule map_cong [OF refl])
    fix x
    assume "x \<in> set (arrayElements h vo)"
    then obtain i where i: "i < length (arrayElements h vo)" "x = arrayElements h vo ! i"
      by (auto simp: in_set_conv_nth)
    with e have "represents A h x (members jo ! i)" "members jo ! i \<in> set (members jo)"
      by (auto simp: list_all2_conv_all_nth)
    with f show "spreadable h x = [x]"
      by (intro represents_spreadable) auto
  qed
  have s: "concat (map (spreadable h) (arrayElements h vo)) = arrayElements h vo"
    by (subst m) simp
  have h1: "h1 = h @ [CArr ?vs]" "arr = VRef (length h)"
    using c by (simp_all add: concat_spread_def s)
  have "list_all2 (represents A h) ?vs (members jp @ members jo)"
    using represents_elements [OF p] e by (intro list_all2_appendI)
  then have "list_all2 (represents (A \<union> {length h..<length h1}) h1) ?vs
               (members jp @ members jo)"
    by (rule list_all2_mono) (rule represents_transfer, auto simp: h1 nth_append)
  then show ?thesis
    unfolding h1(2) by (rule represents.array [rotated 3]) (simp_all add: h1)
qed

lemma reach_mono: "length h \<le> length h' \<Longrightarrow> reach A prev h \<subseteq> reach A prev h'"
  by (auto simp: reach_def)

lemma reach_bound: "A \<subseteq> {..<prev} \<Longrightarrow> prev < length h \<Longrightarrow> reach A prev h \<subseteq> {..<length h}"
  by (auto simp: reach_def)

lemma reach_not_prev: "A \<subseteq> {..<prev} \<Longrightarrow> prev \<notin> reach A prev h"
  by (auto simp: reach_def)

lemma holds_getOwn:
  assumes "holds A h prev acc"
  shows "represents (reach A prev h) h (getOwn h (VRef prev) key) (valueAt acc key)"
  using assms related_lookup [of "reach A prev h" h _ acc key]
  by (auto simp: holds_def getOwn_def ownProperties_def)

lemma represents_past_setOwn:
  assumes "represents (reach A prev h) h v j" and "A \<subseteq> {..<prev}" and "extends h h1"
  shows "represents (reach A prev (setOwn h1 prev key x)) (setOwn h1 prev key x) v j"
  using assms(1)
proof (rule represents_transfer)
  show "reach A prev h \<subseteq> reach A prev (setOwn h1 prev key x)"
    using assms(3) by (simp add: reach_mono extends_def)
  show "a < length (setOwn h1 prev key x) \<and> setOwn h1 prev key x ! a = h ! a"
    if "a \<in> reach A prev h" "a < length h" for a
  proof -
    have "a \<noteq> prev" using that(1) reach_not_prev [OF assms(2), of h] by auto
    with that(2) assms(3) show ?thesis
      by (simp add: extends_def setOwn_other)
  qed
qed

lemma holds_setOwn:
  assumes "holds A h prev acc" and e: "extends h h1"
    and v: "represents (reach A prev h1) h1 v j"
  shows "holds A (setOwn h1 prev key v) prev (AList.update key j acc)"
proof -
  from assms(1) obtain kvs where p: "prev < length h" "h ! prev = CObj kvs"
    "distinct (map fst kvs)" "related (reach A prev h) h kvs acc" and A: "A \<subseteq> {..<prev}"
    by (auto simp: holds_def)
  let ?h2 = "setOwn h1 prev key v"
  have h1: "prev < length h1" "h1 ! prev = CObj kvs"
    using p e by (auto simp: extends_def)
  then have c: "?h2 ! prev = CObj (AList.update key v kvs)"
    by (simp add: setOwn_def)
  have "related (reach A prev ?h2) ?h2 kvs acc"
    using p(4) unfolding related_def
    by (rule list_all2_mono) (auto intro: represents_past_setOwn [OF _ A e])
  moreover have "represents (reach A prev ?h2) ?h2 v j"
    using v
  proof (rule represents_transfer)
    show "reach A prev h1 \<subseteq> reach A prev ?h2" by (simp add: reach_def)
    show "a < length ?h2 \<and> ?h2 ! a = h1 ! a" if "a \<in> reach A prev h1" "a < length h1" for a
    proof -
      have "a \<noteq> prev" using that(1) reach_not_prev [OF A, of h1] by auto
      with that(2) show ?thesis by (simp add: setOwn_other)
    qed
  qed
  ultimately have "related (reach A prev ?h2) ?h2 (AList.update key v kvs)
                     (AList.update key j acc)"
    by (rule related_update)
  with c h1(1) p(3) A show ?thesis
    by (auto simp: holds_def distinct_update)
qed

lemma holds_represents:
  assumes "holds A h prev acc"
  shows "represents (A \<union> {prev..<length h}) h (VRef prev) (TObj acc)"
proof -
  from assms obtain kvs where p: "prev < length h" "h ! prev = CObj kvs"
    "distinct (map fst kvs)" "related (reach A prev h) h kvs acc"
    by (auto simp: holds_def)
  from p(4) have "related (A \<union> {prev..<length h}) h kvs acc"
    by (rule related_transfer) (auto simp: reach_def)
  with p(1-3) show ?thesis
    by (intro represents.object) (simp_all add: related_def)
qed

subsection \<open>The loop over the keys\<close>

lemma mergeWith_Nil [simp]: "mergeWith f [] acc = acc"
  by (simp add: mergeWith_def)

lemma mergeWith_Cons [simp]:
  "mergeWith f (kv # rest) acc
     = mergeWith f rest (AList.update (fst kv) (f (valueAt acc (fst kv)) (snd kv)) acc)"
  by (simp add: mergeWith_def)

lemma combine_seq:
  "is_seq e \<Longrightarrow> is_seq l \<Longrightarrow> combine e l = TArr (members e @ members l)"
  by (subst combine.simps) simp

lemma combine_struct:
  "\<not> (is_seq e \<and> is_seq l) \<Longrightarrow> is_struct e \<Longrightarrow> is_struct l
     \<Longrightarrow> combine e l = TObj (mergeWith combine (props l) (props e))"
  by (subst combine.simps) (auto simp: mergeWith_def)

lemma combine_later:
  "\<not> (is_seq e \<and> is_seq l) \<Longrightarrow> \<not> (is_struct e \<and> is_struct l) \<Longrightarrow> combine e l = l"
  by (subst combine.simps) auto

lemma update_absent: "k \<notin> fst ` set al \<Longrightarrow> AList.update k v al = al @ [(k, v)]"
  by (induction al) auto

lemma valueAt_absent: "k \<notin> fst ` set al \<Longrightarrow> valueAt al k = TUndefined"
proof -
  assume "k \<notin> fst ` set al"
  then have "map_of al k = None" by (simp add: map_of_eq_None_iff)
  then show ?thesis by (simp add: valueAt_def)
qed

lemma valueAt_update: "valueAt (AList.update k v al) k' = (if k' = k then v else valueAt al k')"
  by (simp add: valueAt_def update_conv')

lemma mergeWith_fresh:
  "distinct (map fst kvs) \<Longrightarrow> fst ` set kvs \<inter> fst ` set acc = {}
     \<Longrightarrow> mergeWith combine kvs acc = acc @ kvs"
proof (induction kvs arbitrary: acc)
  case Nil
  then show ?case by simp
next
  case (Cons kv kvs)
  from Cons.prems have k: "fst kv \<notin> fst ` set acc" by auto
  then have "AList.update (fst kv) (combine (valueAt acc (fst kv)) (snd kv)) acc = acc @ [kv]"
    by (simp add: update_absent valueAt_absent combine_later)
  moreover have "fst ` set kvs \<inter> fst ` set (acc @ [kv]) = {}"
    using Cons.prems by auto
  ultimately show ?case
    using Cons.IH [of "acc @ [kv]"] Cons.prems by simp
qed

lemma merged_pair:
  assumes "distinct (map fst (props jp))"
  shows "merged [jp, jo] = TObj (mergeWith combine (props jo) (props jp))"
  using mergeWith_fresh [OF assms, of "[]"] by (simp add: merged_def)

lemma props_lookup:
  assumes "distinct (map fst kvs)"
  shows "map (\<lambda>k. (k, valueAt kvs k)) (map fst kvs) = kvs"
proof -
  have "(fst kv, valueAt kvs (fst kv)) = kv" if "kv \<in> set kvs" for kv
  proof -
    from that have "(fst kv, snd kv) \<in> set kvs" by simp
    then have "map_of kvs (fst kv) = Some (snd kv)"
      by (simp only: map_of_eq_Some_iff [OF assms])
    then show ?thesis by (simp add: valueAt_def)
  qed
  then show ?thesis
    by (simp add: comp_def map_idI)
qed

lemma protoFree_mergeWith:
  assumes "\<forall>kv \<in> set later. fst kv \<noteq> ''__proto__'' \<and> protoFree (snd kv)"
    and "\<And>acc kv. kv \<in> set later \<Longrightarrow> protoFree (valueAt acc (fst kv)) \<Longrightarrow> protoFree (snd kv)
           \<Longrightarrow> protoFree (f (valueAt acc (fst kv)) (snd kv))"
  shows "\<forall>kv \<in> set acc. fst kv \<noteq> ''__proto__'' \<and> protoFree (snd kv)
     \<Longrightarrow> \<forall>kv \<in> set (mergeWith f later acc). fst kv \<noteq> ''__proto__'' \<and> protoFree (snd kv)"
  using assms
proof (induction later arbitrary: acc)
  case Nil
  then show ?case by simp
next
  case (Cons kv later)
  have "protoFree (valueAt acc (fst kv))"
    using Cons.prems(1) by (intro protoFree_valueAt) simp
  then have "protoFree (f (valueAt acc (fst kv)) (snd kv))"
    using Cons.prems(2,3) by simp
  with Cons.prems(1,2)
  have "\<forall>x \<in> set (AList.update (fst kv) (f (valueAt acc (fst kv)) (snd kv)) acc).
          fst x \<noteq> ''__proto__'' \<and> protoFree (snd x)"
    by (intro protoFree_update) simp_all
  then have "\<forall>x \<in> set (mergeWith f later
                (AList.update (fst kv) (f (valueAt acc (fst kv)) (snd kv)) acc)).
          fst x \<noteq> ''__proto__'' \<and> protoFree (snd x)"
  proof (rule Cons.IH)
    show "\<forall>x \<in> set later. fst x \<noteq> ''__proto__'' \<and> protoFree (snd x)"
      using Cons.prems(2) by simp
    show "protoFree (f (valueAt acc (fst x)) (snd x))"
      if "x \<in> set later" "protoFree (valueAt acc (fst x))" "protoFree (snd x)" for acc x
      using that Cons.prems(3) [of x acc] by simp
  qed
  then show ?case by simp
qed

lemma protoFree_combine: "protoFree e \<Longrightarrow> protoFree l \<Longrightarrow> protoFree (combine e l)"
proof (induction e l rule: combine.induct)
  case (1 earlier later)
  show ?case
  proof (cases "is_seq earlier \<and> is_seq later")
    case True
    then obtain xs ys where "earlier = TArr xs" "later = TArr ys"
      by (cases earlier; cases later) simp_all
    with "1.prems" show ?thesis
      by (auto simp: combine_seq)
  next
    case False
    note ns = this
    show ?thesis
    proof (cases "is_struct earlier \<and> is_struct later")
      case True
      have "\<forall>kv \<in> set (mergeWith combine (props later) (props earlier)).
              fst kv \<noteq> ''__proto__'' \<and> protoFree (snd kv)"
      proof (rule protoFree_mergeWith)
        show "\<forall>kv \<in> set (props later). fst kv \<noteq> ''__proto__'' \<and> protoFree (snd kv)"
          using protoFree_props [OF "1.prems"(2)] by blast
        show "\<forall>kv \<in> set (props earlier). fst kv \<noteq> ''__proto__'' \<and> protoFree (snd kv)"
          using protoFree_props [OF "1.prems"(1)] by blast
        show "protoFree (combine (valueAt acc (fst kv)) (snd kv))"
          if "kv \<in> set (props later)" "protoFree (valueAt acc (fst kv))" "protoFree (snd kv)"
          for acc kv
          using "1.IH" [OF ns True that] .
      qed
      with ns True show ?thesis
        by (simp add: combine_struct)
    next
      case False
      with ns "1.prems" show ?thesis by (simp add: combine_later)
    qed
  qed
qed

lemma forEach_refines:
  assumes rec: "rec_ok rec n" and jo: "is_struct jo" and pf: "protoFree jo"
  shows "holds A h prev acc \<Longrightarrow> represents (reach A prev h) h obj jo \<Longrightarrow> distinct ks
     \<Longrightarrow> \<forall>k \<in> set ks. k \<noteq> ''__proto__''
     \<Longrightarrow> \<forall>kv \<in> set acc. fst kv \<noteq> ''__proto__'' \<and> protoFree (snd kv)
     \<Longrightarrow> \<forall>k \<in> set ks. is_struct (valueAt acc k) \<longrightarrow>
           depth (valueAt (props jo) k) \<le> n \<and> flat (valueAt (props jo) k)
     \<Longrightarrow> \<exists>h'. forEach rec h prev obj ks = Ret h' \<and> extendsBut prev h h'
            \<and> holds A h' prev (mergeWith combine (map (\<lambda>k. (k, valueAt (props jo) k)) ks) acc)"
proof (induction ks arbitrary: h acc)
  case Nil
  then show ?case by simp
next
  case (Cons key rest)
  let ?U = "\<lambda>h. reach A prev h"
  let ?p = "getOwn h (VRef prev) key" and ?o = "getOwn h obj key"
  let ?jp = "valueAt acc key" and ?jv = "valueAt (props jo) key"
  have prev: "prev < length h" "A \<subseteq> {..<prev}" using Cons.prems(1) by (simp_all add: holds_def)
  note bound = reach_bound [OF prev(2,1)]
  have p: "represents (?U h) h ?p ?jp" using Cons.prems(1) by (rule holds_getOwn)
  have o: "represents (?U h) h ?o ?jv" using Cons.prems(2) jo by (rule represents_getOwn)
  note kp = represents_kind [OF p] and ko = represents_kind [OF o]
  have key: "key \<noteq> ''__proto__''" using Cons.prems(4) by simp
  have fp: "protoFree ?jp" using Cons.prems(5) by (intro protoFree_valueAt) simp
  have fv: "protoFree ?jv"
    using protoFree_props(2) [OF pf] by (intro protoFree_valueAt) simp
  have step: "\<exists>h'. forEach rec (setOwn h1 prev key v) prev obj rest = Ret h'
                 \<and> extendsBut prev h h'
                 \<and> holds A h' prev (mergeWith combine (map (\<lambda>k. (k, valueAt (props jo) k)) (key # rest)) acc)"
    if e: "extends h h1" and v: "represents (?U h1) h1 v (combine ?jp ?jv)" for h1 v
  proof -
    let ?h2 = "setOwn h1 prev key v"
    let ?acc = "AList.update key (combine ?jp ?jv) acc"
    have 1: "holds A ?h2 prev ?acc"
      using Cons.prems(1) e v by (rule holds_setOwn)
    have 2: "represents (?U ?h2) ?h2 obj jo"
      using Cons.prems(2) prev(2) e by (rule represents_past_setOwn)
    have 3: "distinct rest" using Cons.prems(3) by simp
    have 4: "\<forall>k \<in> set rest. k \<noteq> ''__proto__''" using Cons.prems(4) by simp
    have 5: "\<forall>kv \<in> set ?acc. fst kv \<noteq> ''__proto__'' \<and> protoFree (snd kv)"
      using Cons.prems(5) key protoFree_combine [OF fp fv] by (rule protoFree_update)
    have 6: "\<forall>k \<in> set rest. is_struct (valueAt ?acc k) \<longrightarrow>
               depth (valueAt (props jo) k) \<le> n \<and> flat (valueAt (props jo) k)"
      using Cons.prems(3,6) by (auto simp: valueAt_update)
    from Cons.IH [OF 1 2 3 4 5 6] obtain h' where h': "forEach rec ?h2 prev obj rest = Ret h'"
      "extendsBut prev ?h2 h'"
      "holds A h' prev (mergeWith combine (map (\<lambda>k. (k, valueAt (props jo) k)) rest) ?acc)"
      by blast
    have "extendsBut prev h ?h2"
      using e by (auto simp: extends_def extendsBut_def setOwn_other)
    with h' show ?thesis
      by (auto intro: extendsBut_trans)
  qed
  show ?case
  proof (cases "is_seq ?jp \<and> is_seq ?jv")
    case True
    obtain h1 arr where c: "concat_spread h ?p ?o = (h1, arr)" by (cases "concat_spread h ?p ?o")
    have e: "extends h h1" using c by (rule extends_concat_spread)
    have "is_struct ?jp" using True by (cases ?jp) simp_all
    then have "flat ?jv" using Cons.prems(6) by simp
    then have f: "\<forall>x \<in> set (members ?jv). \<not> is_seq x"
      by (blast dest: flat_members)
    have "represents (?U h \<union> {length h..<length h1}) h1 arr (TArr (members ?jp @ members ?jv))"
      using p True [THEN conjunct1] o True [THEN conjunct2] f bound c
      by (rule represents_concat_spread)
    then have "represents (?U h1) h1 arr (combine ?jp ?jv)"
      using True e prev(1) by (simp add: combine_seq) (rule represents_transfer, auto simp: extends_def reach_def)
    from step [OF e this] True kp ko c key show ?thesis
      by (simp add: forEach_arrays del: forEach.simps)
  next
    case False
    note ns = this
    show ?thesis
    proof (cases "is_struct ?jp \<and> is_struct ?jv")
      case True
      then have d: "depth ?jv \<le> n" "flat ?jv" using Cons.prems(6) by simp_all
      from rec bound p o True fp fv d obtain h1 r where r: "rec h [?p, ?o] = Ret (h1, r)" "extends h h1"
        "represents (?U h \<union> {length h..<length h1}) h1 r (merged [?jp, ?jv])"
        unfolding rec_ok_def by blast
      have "merged [?jp, ?jv] = combine ?jp ?jv"
        using represents_keys(2) [OF p] True ns by (simp add: merged_pair combine_struct)
      with r(3) have "represents (?U h1) h1 r (combine ?jp ?jv)"
        using r(2) prev(1) by simp (rule represents_transfer, auto simp: extends_def reach_def)
      from step [OF r(2) this] True ns kp ko r(1) key show ?thesis
        by (simp add: forEach_objects del: forEach.simps)
    next
      case False
      have "represents (?U h) h ?o (combine ?jp ?jv)"
        using o ns False by (simp add: combine_later)
      from step [OF _ this] False ns kp ko key show ?thesis
        by (simp add: forEach_later del: forEach.simps)
    qed
  qed
qed

subsection \<open>The loop over the inputs\<close>

lemma fold_max_ge: "x \<in> set ys \<Longrightarrow> x \<le> fold max ys (a::nat)"
  by (simp add: Max.set_eq_fold [symmetric])

lemma depth_props: "kv \<in> set (props j) \<Longrightarrow> depth (snd kv) < depth j"
proof (cases j)
  case (TArr xs)
  assume "kv \<in> set (props j)"
  with TArr have "snd kv \<in> set xs"
    by (cases kv) (auto simp: indexed_def dest: set_zip_rightD)
  then have "depth (snd kv) \<le> fold max (map depth xs) 0"
    by (intro fold_max_ge) simp
  with TArr show ?thesis by simp
next
  case (TObj kvs)
  assume "kv \<in> set (props j)"
  with TObj have "depth (snd kv) \<le> fold max (map (\<lambda>kv. depth (snd kv)) kvs) 0"
    by (intro fold_max_ge) auto
  with TObj show ?thesis by simp
qed simp_all

lemma depth_valueAt: "depth j \<le> Suc n \<Longrightarrow> depth (valueAt (props j) k) \<le> n"
proof (cases "map_of (props j) k")
  case None
  then show ?thesis by (simp add: valueAt_def)
next
  case (Some x)
  assume "depth j \<le> Suc n"
  moreover from Some have "(k, x) \<in> set (props j)" by (rule map_of_SomeD)
  then have "depth x < depth j" using depth_props [of "(k, x)" j] by simp
  ultimately show ?thesis using Some by (simp add: valueAt_def)
qed

lemma reduce_refines:
  assumes rec: "rec_ok rec n"
  shows "holds A h prev acc \<Longrightarrow> list_all2 (represents (reach A prev h) h) objs js
     \<Longrightarrow> \<forall>j \<in> set js. is_struct j \<and> protoFree j
     \<Longrightarrow> \<forall>kv \<in> set acc. fst kv \<noteq> ''__proto__'' \<and> protoFree (snd kv)
     \<Longrightarrow> (acc = [] \<and> (\<forall>j \<in> set (tl js). depth j \<le> Suc n \<and> flat j))
           \<or> (\<forall>j \<in> set js. depth j \<le> Suc n \<and> flat j)
     \<Longrightarrow> \<exists>h'. reduce rec h prev objs = Ret (h', VRef prev) \<and> extendsBut prev h h'
            \<and> holds A h' prev (fold (\<lambda>j acc. mergeWith combine (props j) acc) js acc)"
proof (induction objs arbitrary: h acc js)
  case Nil
  then show ?case by simp
next
  case (Cons obj rest)
  from Cons.prems(2) obtain j js' where js: "js = j # js'"
    and o: "represents (reach A prev h) h obj j"
    and r: "list_all2 (represents (reach A prev h) h) rest js'"
    by (auto simp: list_all2_Cons1)
  have s: "is_struct j" "protoFree j" using Cons.prems(3) js by simp_all
  have A: "A \<subseteq> {..<prev}" using Cons.prems(1) by (simp add: holds_def)
  note k = represents_keys [OF o s(1)]
  have keys: "\<forall>k \<in> set (map fst (props j)). k \<noteq> ''__proto__''"
    using protoFree_props(1) [OF s(2)] by auto
  have fuel: "\<forall>k \<in> set (map fst (props j)). is_struct (valueAt acc k)
                \<longrightarrow> depth (valueAt (props j) k) \<le> n \<and> flat (valueAt (props j) k)"
  proof (intro ballI impI)
    fix k
    assume "is_struct (valueAt acc k)"
    then have "acc \<noteq> []" by (auto simp: valueAt_def)
    with Cons.prems(5) js have "depth j \<le> Suc n" "flat j" by auto
    then show "depth (valueAt (props j) k) \<le> n \<and> flat (valueAt (props j) k)"
      by (simp add: depth_valueAt flat_valueAt)
  qed
  have acc': "\<forall>kv \<in> set (mergeWith combine (props j) acc).
                 fst kv \<noteq> ''__proto__'' \<and> protoFree (snd kv)"
    using _ _ Cons.prems(4)
  proof (rule protoFree_mergeWith)
    show "\<forall>kv \<in> set (props j). fst kv \<noteq> ''__proto__'' \<and> protoFree (snd kv)"
      using protoFree_props [OF s(2)] by blast
  qed (rule protoFree_combine)
  from forEach_refines [OF rec s Cons.prems(1) o k(2) keys Cons.prems(4) fuel,
      unfolded props_lookup [OF k(2)]]
  obtain h1 where h1: "forEach rec h prev obj (map fst (props j)) = Ret h1"
    "extendsBut prev h h1" "holds A h1 prev (mergeWith combine (props j) acc)"
    by blast
  have r1: "list_all2 (represents (reach A prev h1) h1) rest js'"
    using r
  proof (rule list_all2_mono)
    fix v x
    assume "represents (reach A prev h) h v x"
    then show "represents (reach A prev h1) h1 v x"
    proof (rule represents_transfer)
      show "reach A prev h \<subseteq> reach A prev h1"
        using h1(2) by (simp add: reach_mono extendsBut_def)
      show "a < length h1 \<and> h1 ! a = h ! a" if "a \<in> reach A prev h" "a < length h" for a
      proof -
        have "a \<noteq> prev" using that(1) reach_not_prev [OF A, of h] by auto
        with that(2) h1(2) show ?thesis by (auto simp: extendsBut_def)
      qed
    qed
  qed
  have "\<forall>j \<in> set js'. is_struct j \<and> protoFree j" "\<forall>j \<in> set js'. depth j \<le> Suc n \<and> flat j"
    using Cons.prems(3,5) js by auto
  with Cons.IH [OF h1(3) r1 _ acc'] obtain h' where
    "reduce rec h1 prev rest = Ret (h', VRef prev)" "extendsBut prev h1 h'"
    "holds A h' prev (fold (\<lambda>j acc. mergeWith combine (props j) acc) js'
                        (mergeWith combine (props j) acc))"
    by blast
  with h1(1,2) k(1) js show ?case
    by (auto intro: extendsBut_trans)
qed

lemma deepMerge_refines_aux:
  "A \<subseteq> {..<length h} \<Longrightarrow> list_all2 (represents A h) objs js
     \<Longrightarrow> \<forall>j \<in> set js. is_struct j \<and> protoFree j
     \<Longrightarrow> 0 < fuel \<Longrightarrow> \<forall>j \<in> set (tl js). depth j \<le> fuel \<and> flat j
     \<Longrightarrow> \<exists>h'. deepMerge fuel h objs = Ret (h', VRef (length h)) \<and> extends h h'
              \<and> represents (A \<union> {length h..<length h'}) h' (VRef (length h)) (merged js)"
proof (induction fuel arbitrary: A h objs js)
  case 0
  then show ?case by simp
next
  case (Suc n)
  have rec: "rec_ok (deepMerge n) n"
    unfolding rec_ok_def
  proof (intro allI impI)
    fix A h vp vo jp jo
    assume a: "A \<subseteq> {..<length h}" "represents A h vp jp" "represents A h vo jo"
      "is_struct jp" "is_struct jo" "protoFree jp" "protoFree jo" "flat jo" "depth jo \<le> n"
    from a(5,9) have "0 < n" by (cases jo) simp_all
    with Suc.IH [of A h "[vp, vo]" "[jp, jo]"] a
    show "\<exists>h1 r. deepMerge n h [vp, vo] = Ret (h1, r) \<and> extends h h1
            \<and> represents (A \<union> {length h..<length h1}) h1 r (merged [jp, jo])"
      by auto
  qed
  let ?h0 = "h @ [CObj []]"
  let ?prev = "length h"
  have 1: "holds A ?h0 ?prev []"
    using Suc.prems(1) by (simp add: holds_def related_def)
  have 2: "list_all2 (represents (reach A ?prev ?h0) ?h0) objs js"
    using Suc.prems(2)
    by (rule list_all2_mono) (rule represents_transfer, auto simp: reach_def nth_append)
  have 3: "([] = [] \<and> (\<forall>j \<in> set (tl js). depth j \<le> Suc n \<and> flat j))
           \<or> (\<forall>j \<in> set js. depth j \<le> Suc n \<and> flat j)"
    using Suc.prems(5) by simp
  have 4: "\<forall>kv \<in> set ([] :: (string \<times> jsv) list). fst kv \<noteq> ''__proto__'' \<and> protoFree (snd kv)"
    by simp
  from reduce_refines [OF rec 1 2 Suc.prems(3) 4 3] obtain h' where
    h': "reduce (deepMerge n) ?h0 ?prev objs = Ret (h', VRef ?prev)" "extendsBut ?prev ?h0 h'"
    "holds A h' ?prev (fold (\<lambda>j acc. mergeWith combine (props j) acc) js [])"
    by blast
  from h'(2) have "extends h h'"
    by (auto simp: extends_def extendsBut_def nth_append)
  moreover from holds_represents [OF h'(3)]
  have "represents (A \<union> {length h..<length h'}) h' (VRef ?prev) (merged js)"
    by (simp add: merged_def)
  ultimately show ?case
    using h'(1) by simp
qed

subsection \<open>The merged structure, key by key\<close>

lemma mergeWith_valueAt:
  "distinct (map fst later) \<Longrightarrow>
   valueAt (mergeWith f later acc) k
     = (case map_of later k of None \<Rightarrow> valueAt acc k | Some v \<Rightarrow> f (valueAt acc k) v)"
proof (induction later arbitrary: acc)
  case Nil
  then show ?case by simp
next
  case (Cons kv later)
  from Cons.prems have d: "distinct (map fst later)" and n: "fst kv \<notin> fst ` set later" by auto
  show ?case
  proof (cases "k = fst kv")
    case True
    with n have "map_of later k = None" by (simp add: map_of_eq_None_iff)
    moreover have "valueAt (mergeWith f later
          (AList.update (fst kv) (f (valueAt acc (fst kv)) (snd kv)) acc)) k
        = (case map_of later k of
             None \<Rightarrow> valueAt (AList.update (fst kv) (f (valueAt acc (fst kv)) (snd kv)) acc) k
           | Some v \<Rightarrow> f (valueAt (AList.update (fst kv) (f (valueAt acc (fst kv)) (snd kv)) acc) k) v)"
      by (rule Cons.IH [OF d])
    ultimately show ?thesis
      using True by (simp add: valueAt_update)
  next
    case False
    then show ?thesis
      by (simp add: Cons.IH [OF d] valueAt_update split: option.splits)
  qed
qed

lemma fold_mergeWith_valueAt:
  "\<forall>j \<in> set js. distinct (map fst (props j)) \<Longrightarrow>
   valueAt (fold (\<lambda>j acc. mergeWith combine (props j) acc) js acc) k
     = fold (\<lambda>j earlier. case map_of (props j) k of None \<Rightarrow> earlier | Some later \<Rightarrow> combine earlier later)
         js (valueAt acc k)"
  by (induction js arbitrary: acc) (simp_all add: mergeWith_valueAt)

lemma merged_valueOf:
  "\<forall>j \<in> set js. distinct (map fst (props j)) \<Longrightarrow> valueAt (props (merged js)) k = valueOf js k"
  using fold_mergeWith_valueAt [of js "[]" k]
  by (simp add: merged_def valueOf_def valueAt_def)

lemma represents_stays:
  assumes "represents A h v j" and "A \<subseteq> {..<length h}" and "extends h h'"
  shows "represents A h' v j"
  using assms(1) by (rule represents_transfer) (use assms(2,3) in \<open>auto simp: extends_def\<close>)

text \<open>
  Claim C6, amended. Let the inputs be objects of a heap that stand for plain nested
  structures none of whose keys is \<open>__proto__\<close>; in the inputs after the first let no
  element of a sequence be itself a sequence, and let the fuel be positive and no less than
  the nesting of these inputs. Then \<open>deepMerge\<close> returns, and what it returns is a new
  object; every cell of the heap it was given is unchanged, so no input is mutated at any
  depth and the inputs stand for the same structures as before; and the object returned
  stands for \<open>merged inputs\<close>, in which a key has the value \<open>valueOf inputs k\<close>: the
  values the inputs have for the key, combined from the first input to the last. Combining
  two sequences gives their concatenation in input order; combining two values that are
  structures or sequences, but not two sequences, merges them recursively, a sequence
  counting as the structure of its indices; in every other case the later value stands.
\<close>

theorem deepMerge_merges:
  assumes "list_all2 (represents A h) objects inputs" and "A \<subseteq> {..<length h}"
    and "\<forall>j \<in> set inputs. is_struct j \<and> protoFree j"
    and "0 < fuel" and "\<forall>j \<in> set (tl inputs). depth j \<le> fuel \<and> flat j"
  shows "\<exists>h'. deepMerge fuel h objects = Ret (h', VRef (length h))
           \<and> take (length h) h' = h
           \<and> list_all2 (represents A h') objects inputs
           \<and> represents (A \<union> {length h..<length h'}) h' (VRef (length h)) (merged inputs)
           \<and> (\<forall>k. valueAt (props (merged inputs)) k = valueOf inputs k)"
proof -
  from deepMerge_refines_aux [OF assms(2,1,3,4,5)] obtain h' where
    r: "deepMerge fuel h objects = Ret (h', VRef (length h))" "extends h h'"
    "represents (A \<union> {length h..<length h'}) h' (VRef (length h)) (merged inputs)"
    by blast
  have "list_all2 (represents A h') objects inputs"
    using assms(1) by (rule list_all2_mono) (rule represents_stays [OF _ assms(2) r(2)])
  moreover have "\<forall>j \<in> set inputs. distinct (map fst (props j))"
  proof
    fix j
    assume j: "j \<in> set inputs"
    then obtain v where "represents A h v j"
      using assms(1) by (auto simp: list_all2_conv_all_nth in_set_conv_nth)
    with assms(3) j show "distinct (map fst (props j))"
      by (auto intro: represents_keys(2))
  qed
  ultimately show ?thesis
    using r by (auto simp: extends_take merged_valueOf)
qed

lemmas heap_eval = keys_def ownProperties_def getOwn_def setOwn_def isArray_def isObject_def
  indexed_def arrayElements_def spreadable_def concat_spread_def Let_def eval_nat_numeral

lemma dec_small: "dec 0 = ''0''" "dec (Suc 0) = ''1''"
  by (simp_all add: dec.simps digit_def)

text \<open>
  Claim C6 as it was stated fails where a nested structure meets a sequence: for
  \<open>{a: {x: 1}}\<close> and \<open>{a: [2]}\<close> the later value does not win. \<open>isObject\<close> accepts the
  array, the two values are merged, and the key \<open>a\<close> gets a new object with the properties
  \<open>x\<close> and \<open>0\<close>.
\<close>

theorem deepMerge_structure_and_sequence:
  "deepMerge 2 heap0 [VRef 1, VRef 3]
     = Ret (heap0 @ [CObj [(''a'', VRef 5)], CObj [(''x'', VNum 1), (''0'', VNum 2)]], VRef 4)"
  by (simp add: heap0_def heap_eval getProp_def setProp_def dec_small)

text \<open>
  A sequence inside a later sequence is left out of the statement above. The code hands
  the elements of the later sequence to \<open>concat\<close> one by one, and \<open>concat\<close> unpacks an
  argument that is an array: for \<open>{a: [1]}\<close> and \<open>{a: [[2], 3]}\<close> the key \<open>a\<close> gets
  \<open>[1, 2, 3]\<close>.
\<close>

lemma deepMerge_nested_sequence:
  "deepMerge 1 heap1 [VRef 1, VRef 4]
     = Ret (heap1 @ [CObj [(''a'', VRef 6)], CArr [VNum 1, VNum 2, VNum 3]], VRef 5)"
  by (simp add: heap1_def heap_eval getProp_def setProp_def dec_small)

lemma merged_sample:
  "merged [TObj [(''a'', TObj [(''x'', TNum 1)])], TObj [(''a'', TArr [TNum 2])]]
     = TObj [(''a'', TObj [(''x'', TNum 1), (''0'', TNum 2)])]"
  by (simp add: merged_def valueAt_def combine.simps [of "TObj kvs" "TArr xs" for kvs xs]
      combine.simps [of TUndefined] indexed_def dec_small)

lemma represents_sample:
  "list_all2 (represents {..<4} heap0) [VRef 1, VRef 3]
     [TObj [(''a'', TObj [(''x'', TNum 1)])], TObj [(''a'', TArr [TNum 2])]]"
proof -
  have 0: "represents {..<4} heap0 (VRef 0) (TObj [(''x'', TNum 1)])"
    by (rule represents.object [where kvs = "[(''x'', VNum 1)]"])
       (simp_all add: heap0_def related_def represents.num)
  have 2: "represents {..<4} heap0 (VRef 2) (TArr [TNum 2])"
    by (rule represents.array [where vs = "[VNum 2]"])
       (simp_all add: heap0_def represents.num)
  have 1: "represents {..<4} heap0 (VRef 1) (TObj [(''a'', TObj [(''x'', TNum 1)])])"
    by (rule represents.object [where kvs = "[(''a'', VRef 0)]"])
       (simp_all add: heap0_def related_def 0 [unfolded heap0_def])
  have 3: "represents {..<4} heap0 (VRef 3) (TObj [(''a'', TArr [TNum 2])])"
    by (rule represents.object [where kvs = "[(''a'', VRef 2)]"])
       (simp_all add: heap0_def related_def 2 [unfolded heap0_def])
  from 1 3 show ?thesis by simp
qed

text \<open>
  The amended claim at the same input: the objects at the addresses 1 and 3 of
  \<open>heap0\<close> stand for \<open>{a: {x: 1}}\<close> and \<open>{a: [2]}\<close>, and with two units of fuel
  \<open>deepMerge\<close> returns an object that stands for \<open>{a: {x: 1, 0: 2}}\<close>, over an unchanged
  \<open>heap0\<close>.
\<close>

theorem deepMerge_merges_witness:
  "list_all2 (represents {..<4} heap0) [VRef 1, VRef 3]
     [TObj [(''a'', TObj [(''x'', TNum 1)])], TObj [(''a'', TArr [TNum 2])]]
   \<and> (\<exists>h'. deepMerge 2 heap0 [VRef 1, VRef 3] = Ret (h', VRef 4)
          \<and> take 4 h' = heap0
          \<and> represents ({..<4} \<union> {4..<length h'}) h' (VRef 4)
               (TObj [(''a'', TObj [(''x'', TNum 1), (''0'', TNum 2)])]))"
proof -
  have len: "length heap0 = 4" by (simp add: heap0_def)
  from deepMerge_merges [OF represents_sample, of 2]
  obtain h' where "deepMerge 2 heap0 [VRef 1, VRef 3] = Ret (h', VRef (length heap0))"
    and "take (length heap0) h' = heap0"
    and "represents ({..<4} \<union> {length heap0..<length h'}) h' (VRef (length heap0))
           (merged [TObj [(''a'', TObj [(''x'', TNum 1)])], TObj [(''a'', TArr [TNum 2])]])"
    by (auto simp: len)
  then show ?thesis
    using represents_sample by (auto simp: len merged_sample)
qed

end
